theory Spec2Isabelle
  imports Main
begin

section \<open>Node lifecycle manager (startNode, startNodeAt, finishNode, finishNodeAt)\<close>

text \<open>
  The parser prototype methods of the node module.  A node is a JavaScript object whose
  properties are assigned one by one; a property that has not been assigned reads as
  \<open>undefined\<close>, which is \<open>None\<close> here.  Source offsets are integers.
\<close>

type_synonym position = "nat \<times> nat"

text \<open>
  Modelled from the spec: the location value object \<open>SourceLocation\<close> lives in the
  location module, which is not among the sources.  The spec describes it as a structured
  start/end pair; \<open>new SourceLocation(p, start)\<close> stores the start it is given and leaves
  the end unassigned.
\<close>

record source_location =
  loc_start :: "position option"
  loc_end :: "position option"

definition SourceLocation :: "position option \<Rightarrow> source_location" where
  "SourceLocation start = \<lparr>loc_start = start, loc_end = None\<rparr>"

record node =
  node_start :: "int option"
  node_end :: "int option"
  node_type :: "string option"
  node_loc :: "source_location option"
  node_sourceFile :: "string option"
  node_range :: "(int \<times> int) option"

definition new_Node :: node where
  "new_Node = \<lparr>node_start = None, node_end = None, node_type = None, node_loc = None,
     node_sourceFile = None, node_range = None\<rparr>"

record options =
  locations :: bool
  ranges :: bool
  directSourceFile :: "string option"

text \<open>
  The fields of the parser object that the four methods read; \<open>pos_start\<close> is
  \<open>this.start\<close>.
\<close>

record parser =
  opts :: options
  pos_start :: int
  startLoc :: position
  lastTokEnd :: int
  lastTokEndLoc :: position

text \<open>The two process-wide deprecation flags.\<close>

record process =
  throwDeprecation :: bool
  traceDeprecation :: bool

datatype console = ConsoleTrace string | ConsoleError string

datatype error = TypeError | Error string

text \<open>
  The position argument of \<open>startNodeAt\<close> and \<open>finishNodeAt\<close>: a bare offset, or the
  legacy two-element array \<open>[offset, loc]\<close>, whose second slot may be \<open>undefined\<close>.
\<close>

datatype posarg = Offset int | Legacy int "position option"

text \<open>\<open>if (this.options.directSourceFile)\<close>: a string is truthy unless it is empty.\<close>

definition has_directSourceFile :: "parser \<Rightarrow> bool" where
  "has_directSourceFile p =
     (case directSourceFile (opts p) of None \<Rightarrow> False | Some s \<Rightarrow> s \<noteq> [])"

definition startNode :: "parser \<Rightarrow> node" where
  "startNode p =
     (let node = new_Node;
          node = node\<lparr>node_start := Some (pos_start p)\<rparr>;
          node = (if locations (opts p)
                  then node\<lparr>node_loc := Some (SourceLocation (Some (startLoc p)))\<rparr>
                  else node);
          node = (if has_directSourceFile p
                  then node\<lparr>node_sourceFile := directSourceFile (opts p)\<rparr>
                  else node);
          node = (if ranges (opts p)
                  then node\<lparr>node_range := Some (pos_start p, 0)\<rparr>
                  else node)
      in node)"

definition startNodeAt_msg :: string where
  "startNodeAt_msg = ''acron.parser: Usage of startNodeAt(start) is deprecated. please invoke by startNodeAt(start, loc).''"

definition startNodeAt_array_msg :: string where
  "startNodeAt_array_msg = ''acron.parser: parameter 'pos' to member startNodeAt(pos, loc) is expected to be a number, array given.''"

definition finishNodeAt_msg :: string where
  "finishNodeAt_msg = ''acron.parser: Usage of finishNodeAt(start) is deprecated. please invoke by finishNodeAt(start, loc).''"

definition finishNodeAt_array_msg :: string where
  "finishNodeAt_array_msg = ''acron.parser: parameter 'pos' to member finishNodeAt(pos, loc) is expected to be a number, array given.''"

text \<open>
  The deprecation block shared by the two \<open>...At\<close> methods.  \<open>warned\<close> is the local
  variable of the source: it is declared \<open>false\<close> at every call.  The block either
  throws, or appends one line to the console and goes on.
\<close>

definition deprecate :: "process \<Rightarrow> string \<Rightarrow> console list \<Rightarrow> error + console list" where
  "deprecate pr msg out =
     (let warned = False in
      if \<not> warned then
        (if throwDeprecation pr then Inl (Error msg)
         else if traceDeprecation pr then Inr (out @ [ConsoleTrace msg])
         else Inr (out @ [ConsoleError msg]))
      else Inr out)"

text \<open>
  The first part of both \<open>...At\<close> methods: an array position is flattened into offset
  and location after the deprecation block, when locations are tracked and no location
  was passed; any other array call throws.  The result is the offset, the location and
  the console.
\<close>

definition flatten_pos ::
  "process \<Rightarrow> parser \<Rightarrow> string \<Rightarrow> string \<Rightarrow> posarg \<Rightarrow> position option \<Rightarrow> console list \<Rightarrow>
     error + (int \<times> position option \<times> console list)" where
  "flatten_pos pr p msg array_msg pos loc out =
     (case pos of
        Offset n \<Rightarrow> Inr (n, loc, out)
      | Legacy n l \<Rightarrow>
          if locations (opts p) \<and> loc = None then
            (case deprecate pr msg out of
               Inl e \<Rightarrow> Inl e
             | Inr out' \<Rightarrow> Inr (n, l, out'))
          else Inl (Error array_msg))"

text \<open>
  \<open>startNodeAt\<close> takes the console written so far and returns the console afterwards
  with its result; a throw leaves the console as it was.
\<close>

definition startNodeAt ::
  "process \<Rightarrow> parser \<Rightarrow> posarg \<Rightarrow> position option \<Rightarrow> console list \<Rightarrow>
     (error + node) \<times> console list" where
  "startNodeAt pr p pos loc out =
     (let node = new_Node in
      case flatten_pos pr p startNodeAt_msg startNodeAt_array_msg pos loc out of
        Inl e \<Rightarrow> (Inl e, out)
      | Inr (pos, loc, out') \<Rightarrow>
         (let node = node\<lparr>node_start := Some pos\<rparr>;
              node = (if locations (opts p)
                      then node\<lparr>node_loc := Some (SourceLocation loc)\<rparr>
                      else node);
              node = (if has_directSourceFile p
                      then node\<lparr>node_sourceFile := directSourceFile (opts p)\<rparr>
                      else node);
              node = (if ranges (opts p)
                      then node\<lparr>node_range := Some (pos, 0)\<rparr>
                      else node)
          in (Inr node, out')))"

text \<open>
  \<open>node.loc.end = v\<close> is a TypeError when \<open>node.loc\<close> is undefined, and so is
  \<open>node.range[1] = v\<close> when \<open>node.range\<close> is.
\<close>

definition set_loc_end :: "position option \<Rightarrow> node \<Rightarrow> error + node" where
  "set_loc_end v node =
     (case node_loc node of
        None \<Rightarrow> Inl TypeError
      | Some l \<Rightarrow> Inr (node\<lparr>node_loc := Some (l\<lparr>loc_end := v\<rparr>)\<rparr>))"

definition set_range_1 :: "int \<Rightarrow> node \<Rightarrow> error + node" where
  "set_range_1 v node =
     (case node_range node of
        None \<Rightarrow> Inl TypeError
      | Some (a, b) \<Rightarrow> Inr (node\<lparr>node_range := Some (a, v)\<rparr>))"

definition close_node :: "parser \<Rightarrow> int \<Rightarrow> position option \<Rightarrow> node \<Rightarrow> error + node" where
  "close_node p pos loc node =
     (let node = node\<lparr>node_end := Some pos\<rparr> in
      case (if locations (opts p) then set_loc_end loc node else Inr node) of
        Inl e \<Rightarrow> Inl e
      | Inr node \<Rightarrow> (if ranges (opts p) then set_range_1 pos node else Inr node))"

definition finishNode :: "parser \<Rightarrow> node \<Rightarrow> string \<Rightarrow> error + node" where
  "finishNode p node type =
     (let node = node\<lparr>node_type := Some type\<rparr>
      in close_node p (lastTokEnd p) (Some (lastTokEndLoc p)) node)"

text \<open>
  \<open>finishNodeAt\<close> assigns to the node it is given before it looks at the position, so
  a call that throws has changed the caller's node all the same.  The result is what the
  call returns or throws, the caller's node as the call leaves it, and the console.
\<close>

definition finishNodeAt ::
  "process \<Rightarrow> parser \<Rightarrow> node \<Rightarrow> string \<Rightarrow> posarg \<Rightarrow> position option \<Rightarrow> console list \<Rightarrow>
     (error + node) \<times> node \<times> console list" where
  "finishNodeAt pr p node type pos loc out =
     (let node = node\<lparr>node_type := Some type\<rparr> in
      case flatten_pos pr p finishNodeAt_msg finishNodeAt_array_msg pos loc out of
        Inl e \<Rightarrow> (Inl e, node, out)
      | Inr (pos, loc, out') \<Rightarrow>
         (let node = node\<lparr>node_end := Some pos\<rparr> in
          case (if locations (opts p) then set_loc_end loc node else Inr node) of
            Inl e \<Rightarrow> (Inl e, node, out')
          | Inr node \<Rightarrow>
             (case (if ranges (opts p) then set_range_1 pos node else Inr node) of
                Inl e \<Rightarrow> (Inl e, node, out')
              | Inr node \<Rightarrow> (Inr node, node, out'))))"

section \<open>Syntax trees\<close>

text \<open>
  The walker reads trees of JavaScript values.  A node is an object with a \<open>type\<close> tag,
  the source offsets \<open>start\<close> and \<open>end\<close>, and an open set of further fields, whose
  values are nodes, arrays (with \<open>null\<close> holes), or scalars.  A field that is absent reads
  as \<open>undefined\<close>.
\<close>

datatype jsval =
    Undefined
  | Null
  | Bool bool
  | Num int
  | Str string
  | Arr "jsval list"
  | Node string int int "(string \<times> jsval) list"

fun is_node :: "jsval \<Rightarrow> bool" where
  "is_node (Node ty s e fs) = True"
| "is_node _ = False"

fun ntype :: "jsval \<Rightarrow> string option" where
  "ntype (Node ty s e fs) = Some ty"
| "ntype _ = None"

fun nstart :: "jsval \<Rightarrow> int" where
  "nstart (Node ty s e fs) = s"
| "nstart _ = 0"

fun nend :: "jsval \<Rightarrow> int" where
  "nend (Node ty s e fs) = e"
| "nend _ = 0"

text \<open>\<open>node.name\<close> for one of the further fields of a node.\<close>

fun field :: "jsval \<Rightarrow> string \<Rightarrow> jsval" where
  "field (Node ty s e fs) name = (case map_of fs name of None \<Rightarrow> Undefined | Some v \<Rightarrow> v)"
| "field _ name = Undefined"

text \<open>JavaScript truthiness, as \<open>if (node.alternate)\<close> tests it.\<close>

fun truthy :: "jsval \<Rightarrow> bool" where
  "truthy Undefined = False"
| "truthy Null = False"
| "truthy (Bool b) = b"
| "truthy (Num n) = (n \<noteq> 0)"
| "truthy (Str s) = (s \<noteq> [])"
| "truthy (Arr xs) = True"
| "truthy (Node ty s e fs) = True"

section \<open>The grammar dispatch table\<close>

text \<open>
  An entry of a registry is a function of \<open>(node, st, c)\<close> whose only effect is to call
  the continuation \<open>c\<close> on children of the node, passing \<open>st\<close> on unchanged.  It is
  modelled by the sequence of steps it takes on a node: a call \<open>c(child, st, override)\<close>,
  or a TypeError raised by the entry itself.  Whoever runs the entry stops at the first
  step that throws.

  A value that is not a node has no \<open>type\<close>, \<open>start\<close> or \<open>end\<close>.  Reading a
  property of \<open>undefined\<close> or \<open>null\<close> is a TypeError; of any other value that is not
  a node, the three properties read as \<open>undefined\<close>.  Under the entries of \<open>base\<close>, a
  walk that is handed such a value and descends ends in a TypeError before any visitor or
  test is reached (at the property read for \<open>undefined\<close> and \<open>null\<close>, at the lookup of
  the entry \<open>undefined\<close> for the rest); the continuations raise it when they are handed
  the value.  The one continuation that can go on is that of \<open>findNodeAt\<close> with a
  bound, which compares the offsets before it descends.  A registry of the caller's whose
  entries take values that are not nodes is not described.
\<close>

datatype step = Call jsval "string option" | Raise

type_synonym walker_fn = "jsval \<Rightarrow> step list"

type_synonym registry = "string \<Rightarrow> walker_fn option"

text \<open>
  \<open>for (let child of v)\<close>: arrays are iterated by element and strings by character; any
  other value is not iterable.
\<close>

fun for_of :: "jsval \<Rightarrow> (jsval \<Rightarrow> step list) \<Rightarrow> step list" where
  "for_of (Arr xs) body = concat (map body xs)"
| "for_of (Str s) body = concat (map (\<lambda>ch. body (Str [ch])) s)"
| "for_of _ body = [Raise]"

definition skipThrough :: walker_fn where
  "skipThrough node = [Call node None]"

definition ignore :: walker_fn where
  "ignore node = []"

definition moduleDeclarationTypes :: "string list" where
  "moduleDeclarationTypes =
     [''ImportDeclaration'', ''ExportNamedDeclaration'', ''ExportDefaultDeclaration'',
      ''ExportAllDeclaration'']"

definition declarationTypes :: "string list" where
  "declarationTypes = [''VariableDeclaration'', ''FunctionDeclaration'', ''ClassDeclaration'']"

text \<open>
  \<open>types.includes(v.type)\<close>: the read throws on \<open>undefined\<close> and \<open>null\<close>, and a value
  without a type is in no list.
\<close>

definition nullish :: "jsval \<Rightarrow> bool" where
  "nullish v = (v = Undefined \<or> v = Null)"

definition type_in :: "jsval \<Rightarrow> string list \<Rightarrow> bool" where
  "type_in v types = (case ntype v of None \<Rightarrow> False | Some ty \<Rightarrow> ty \<in> set types)"

definition base_Program :: walker_fn where
  "base_Program node =
     for_of (field node ''body'') (\<lambda>child.
       if nullish child then [Raise]
       else if type_in child moduleDeclarationTypes
       then [Call child (Some ''ModuleDeclaration'')]
       else [Call child (Some ''Statement'')])"

definition base_BlockStatement :: walker_fn where
  "base_BlockStatement node =
     for_of (field node ''body'') (\<lambda>child. [Call child (Some ''Statement'')])"

definition base_Statement :: walker_fn where
  "base_Statement node =
     (case ntype node of
        None \<Rightarrow> [Raise]
      | Some ty \<Rightarrow>
          if ty \<in> set declarationTypes then [Call node (Some ''Declaration'')]
          else [Call node None])"

definition base_ExpressionStatement :: walker_fn where
  "base_ExpressionStatement node = [Call (field node ''expression'') (Some ''Expression'')]"

definition base_IfStatement :: walker_fn where
  "base_IfStatement node =
     [Call (field node ''test'') (Some ''Expression''),
      Call (field node ''consequent'') (Some ''Statement'')]
     @ (if truthy (field node ''alternate'')
        then [Call (field node ''alternate'') (Some ''Statement'')] else [])"

definition base_LabeledStatement :: walker_fn where
  "base_LabeledStatement node = [Call (field node ''body'') (Some ''Statement'')]"

definition base_WithStatement :: walker_fn where
  "base_WithStatement node =
     [Call (field node ''object'') (Some ''Expression''),
      Call (field node ''body'') (Some ''Statement'')]"

definition base_SwitchStatement :: walker_fn where
  "base_SwitchStatement node =
     [Call (field node ''discriminant'') (Some ''Expression'')]
     @ for_of (field node ''cases'') (\<lambda>cs. [Call cs (Some ''SwitchCase'')])"

definition base_SwitchCase :: walker_fn where
  "base_SwitchCase node =
     (if truthy (field node ''test'')
      then [Call (field node ''test'') (Some ''Expression'')] else [])
     @ for_of (field node ''consequent'') (\<lambda>cons. [Call cons (Some ''Statement'')])"

definition base_ReturnStatement :: walker_fn where
  "base_ReturnStatement node =
     (if truthy (field node ''argument'')
      then [Call (field node ''argument'') (Some ''Expression'')] else [])"

definition base_ThrowStatement :: walker_fn where
  "base_ThrowStatement node = [Call (field node ''argument'') (Some ''Expression'')]"

definition base_TryStatement :: walker_fn where
  "base_TryStatement node =
     [Call (field node ''block'') (Some ''Statement'')]
     @ (if truthy (field node ''handler'') then [Call (field node ''handler'') None] else [])
     @ (if truthy (field node ''finalizer'')
        then [Call (field node ''finalizer'') (Some ''Statement'')] else [])"

definition base_CatchClause :: walker_fn where
  "base_CatchClause node =
     [Call (field node ''param'') (Some ''Pattern''),
      Call (field node ''body'') (Some ''ScopeBody'')]"

definition base_WhileStatement :: walker_fn where
  "base_WhileStatement node =
     [Call (field node ''test'') (Some ''Expression''),
      Call (field node ''body'') (Some ''Statement'')]"

definition base_ForStatement :: walker_fn where
  "base_ForStatement node =
     (if truthy (field node ''init'') then [Call (field node ''init'') (Some ''ForInit'')] else [])
     @ (if truthy (field node ''test'')
        then [Call (field node ''test'') (Some ''Expression'')] else [])
     @ (if truthy (field node ''update'')
        then [Call (field node ''update'') (Some ''Expression'')] else [])
     @ [Call (field node ''body'') (Some ''Statement'')]"

definition base_ForInStatement :: walker_fn where
  "base_ForInStatement node =
     [Call (field node ''left'') (Some ''ForInit''),
      Call (field node ''right'') (Some ''Expression''),
      Call (field node ''body'') (Some ''Statement'')]"

definition base_ForInit :: walker_fn where
  "base_ForInit node =
     (case ntype node of
        None \<Rightarrow> [Raise]
      | Some ty \<Rightarrow>
          if ty = ''VariableDeclaration'' then [Call node None]
          else [Call node (Some ''Expression'')])"

definition base_FunctionDeclaration :: walker_fn where
  "base_FunctionDeclaration node = [Call node (Some ''Function'')]"

definition base_VariableDeclaration :: walker_fn where
  "base_VariableDeclaration node =
     for_of (field node ''declarations'') (\<lambda>decl. [Call decl None])"

definition base_VariableDeclarator :: walker_fn where
  "base_VariableDeclarator node =
     [Call (field node ''id'') (Some ''Pattern'')]
     @ (if truthy (field node ''init'')
        then [Call (field node ''init'') (Some ''Expression'')] else [])"

definition base_Function :: walker_fn where
  "base_Function node =
     (if truthy (field node ''id'') then [Call (field node ''id'') (Some ''Pattern'')] else [])
     @ for_of (field node ''params'') (\<lambda>param. [Call param (Some ''Pattern'')])
     @ [Call (field node ''body'')
          (Some (if truthy (field node ''expression'') then ''ScopeExpression''
                 else ''ScopeBody''))]"

definition base_ScopeBody :: walker_fn where
  "base_ScopeBody node = [Call node (Some ''Statement'')]"

definition base_ScopeExpression :: walker_fn where
  "base_ScopeExpression node = [Call node (Some ''Expression'')]"

definition base_Pattern :: walker_fn where
  "base_Pattern node =
     (case ntype node of
        None \<Rightarrow> [Raise]
      | Some ty \<Rightarrow>
          if ty = ''Identifier'' \<or> ty = ''MemberExpression''
          then [Call node (Some ''Expression'')]
          else [Call node None])"

definition base_RestElement :: walker_fn where
  "base_RestElement node = [Call (field node ''argument'') (Some ''Pattern'')]"

definition base_ArrayPattern :: walker_fn where
  "base_ArrayPattern node =
     for_of (field node ''elements'') (\<lambda>elt.
       if truthy elt then [Call elt (Some ''Pattern'')] else [])"

text \<open>
  \<open>c(prop.value, st, "Pattern")\<close>: the property node itself is not handed to \<open>c\<close>, only
  its value.
\<close>

definition base_ObjectPattern :: walker_fn where
  "base_ObjectPattern node =
     for_of (field node ''properties'') (\<lambda>prop.
       if is_node prop then [Call (field prop ''value'') (Some ''Pattern'')] else [Raise])"

definition base_ArrayExpression :: walker_fn where
  "base_ArrayExpression node =
     for_of (field node ''elements'') (\<lambda>elt.
       if truthy elt then [Call elt (Some ''Expression'')] else [])"

definition base_ObjectExpression :: walker_fn where
  "base_ObjectExpression node = for_of (field node ''properties'') (\<lambda>prop. [Call prop None])"

definition base_TemplateLiteral :: walker_fn where
  "base_TemplateLiteral node =
     for_of (field node ''quasis'') (\<lambda>quasi. [Call quasi None])
     @ for_of (field node ''expressions'') (\<lambda>expr. [Call expr (Some ''Expression'')])"

definition base_SequenceExpression :: walker_fn where
  "base_SequenceExpression node =
     for_of (field node ''expressions'') (\<lambda>expr. [Call expr (Some ''Expression'')])"

definition base_UnaryExpression :: walker_fn where
  "base_UnaryExpression node = [Call (field node ''argument'') (Some ''Expression'')]"

definition base_BinaryExpression :: walker_fn where
  "base_BinaryExpression node =
     [Call (field node ''left'') (Some ''Expression''),
      Call (field node ''right'') (Some ''Expression'')]"

definition base_AssignmentExpression :: walker_fn where
  "base_AssignmentExpression node =
     [Call (field node ''left'') (Some ''Pattern''),
      Call (field node ''right'') (Some ''Expression'')]"

definition base_ConditionalExpression :: walker_fn where
  "base_ConditionalExpression node =
     [Call (field node ''test'') (Some ''Expression''),
      Call (field node ''consequent'') (Some ''Expression''),
      Call (field node ''alternate'') (Some ''Expression'')]"

definition base_NewExpression :: walker_fn where
  "base_NewExpression node =
     [Call (field node ''callee'') (Some ''Expression'')]
     @ (if truthy (field node ''arguments'')
        then for_of (field node ''arguments'') (\<lambda>arg. [Call arg (Some ''Expression'')])
        else [])"

definition base_MemberExpression :: walker_fn where
  "base_MemberExpression node =
     [Call (field node ''object'') (Some ''Expression'')]
     @ (if truthy (field node ''computed'')
        then [Call (field node ''property'') (Some ''Expression'')] else [])"

definition base_ExportDefaultDeclaration :: walker_fn where
  "base_ExportDefaultDeclaration node =
     (if nullish (field node ''declaration'') then [Raise]
      else if type_in (field node ''declaration'') declarationTypes
      then [Call (field node ''declaration'') (Some ''Declaration'')]
      else [Call (field node ''declaration'') (Some ''Expression'')])"

definition base_ExportNamedDeclaration :: walker_fn where
  "base_ExportNamedDeclaration node =
     (if truthy (field node ''declaration'')
      then [Call (field node ''declaration'') (Some ''Declaration'')] else [])
     @ for_of (field node ''specifiers'') (\<lambda>spec. [Call spec (Some ''ModuleSpecifier'')])
     @ (if truthy (field node ''source'')
        then [Call (field node ''source'') (Some ''Expression'')] else [])"

definition base_ExportAllDeclaration :: walker_fn where
  "base_ExportAllDeclaration node = [Call (field node ''source'') (Some ''Expression'')]"

definition base_ImportDeclaration :: walker_fn where
  "base_ImportDeclaration node =
     for_of (field node ''specifiers'') (\<lambda>spec. [Call spec (Some ''ModuleSpecifier'')])
     @ [Call (field node ''source'') (Some ''Expression'')]"

definition base_TaggedTemplateExpression :: walker_fn where
  "base_TaggedTemplateExpression node =
     [Call (field node ''tag'') (Some ''Expression''),
      Call (field node ''quasi'') None]"

definition base_ClassDeclaration :: walker_fn where
  "base_ClassDeclaration node = [Call node (Some ''Class'')]"

definition base_Class :: walker_fn where
  "base_Class node =
     (if truthy (field node ''id'') then [Call (field node ''id'') (Some ''Pattern'')] else [])
     @ (if truthy (field node ''superClass'')
        then [Call (field node ''superClass'') (Some ''Expression'')] else [])
     @ [Call (field node ''body'') (Some ''ClassBody'')]"

definition base_ClassBody :: walker_fn where
  "base_ClassBody node = for_of (field node ''body'') (\<lambda>item. [Call item None])"

definition base_MethodDefinition :: walker_fn where
  "base_MethodDefinition node =
     (if truthy (field node ''computed'')
      then [Call (field node ''key'') (Some ''Expression'')] else [])
     @ [Call (field node ''value'') (Some ''Expression'')]"

text \<open>
  The exported table \<open>base\<close>, in the order of its assignments.  A type with no entry
  reads as \<open>undefined\<close>, and calling it is a TypeError.
\<close>

definition base_entries :: "(string \<times> walker_fn) list" where
  "base_entries =
     [(''Program'', base_Program),
      (''BlockStatement'', base_BlockStatement),
      (''Statement'', base_Statement),
      (''EmptyStatement'', ignore),
      (''ExpressionStatement'', base_ExpressionStatement),
      (''ParenthesizedExpression'', base_ExpressionStatement),
      (''IfStatement'', base_IfStatement),
      (''LabeledStatement'', base_LabeledStatement),
      (''BreakStatement'', ignore),
      (''ContinueStatement'', ignore),
      (''WithStatement'', base_WithStatement),
      (''SwitchStatement'', base_SwitchStatement),
      (''SwitchCase'', base_SwitchCase),
      (''ReturnStatement'', base_ReturnStatement),
      (''YieldExpression'', base_ReturnStatement),
      (''AwaitExpression'', base_ReturnStatement),
      (''ThrowStatement'', base_ThrowStatement),
      (''SpreadElement'', base_ThrowStatement),
      (''TryStatement'', base_TryStatement),
      (''CatchClause'', base_CatchClause),
      (''WhileStatement'', base_WhileStatement),
      (''DoWhileStatement'', base_WhileStatement),
      (''ForStatement'', base_ForStatement),
      (''ForInStatement'', base_ForInStatement),
      (''ForOfStatement'', base_ForInStatement),
      (''ForInit'', base_ForInit),
      (''DebuggerStatement'', ignore),
      (''Declaration'', skipThrough),
      (''FunctionDeclaration'', base_FunctionDeclaration),
      (''VariableDeclaration'', base_VariableDeclaration),
      (''VariableDeclarator'', base_VariableDeclarator),
      (''Function'', base_Function),
      (''ScopeBody'', base_ScopeBody),
      (''ScopeExpression'', base_ScopeExpression),
      (''Pattern'', base_Pattern),
      (''RestElement'', base_RestElement),
      (''ArrayPattern'', base_ArrayPattern),
      (''ObjectPattern'', base_ObjectPattern),
      (''Expression'', skipThrough),
      (''ThisExpression'', ignore),
      (''Super'', ignore),
      (''MetaProperty'', ignore),
      (''ArrayExpression'', base_ArrayExpression),
      (''ObjectExpression'', base_ObjectExpression),
      (''FunctionExpression'', base_FunctionDeclaration),
      (''ArrowFunctionExpression'', base_FunctionDeclaration),
      (''TemplateLiteral'', base_TemplateLiteral),
      (''TemplateElement'', ignore),
      (''SequenceExpression'', base_SequenceExpression),
      (''UnaryExpression'', base_UnaryExpression),
      (''UpdateExpression'', base_UnaryExpression),
      (''BinaryExpression'', base_BinaryExpression),
      (''LogicalExpression'', base_BinaryExpression),
      (''AssignmentExpression'', base_AssignmentExpression),
      (''AssignmentPattern'', base_AssignmentExpression),
      (''ConditionalExpression'', base_ConditionalExpression),
      (''NewExpression'', base_NewExpression),
      (''CallExpression'', base_NewExpression),
      (''MemberExpression'', base_MemberExpression),
      (''ModuleDeclaration'', skipThrough),
      (''ExportDefaultDeclaration'', base_ExportDefaultDeclaration),
      (''ExportNamedDeclaration'', base_ExportNamedDeclaration),
      (''ExportAllDeclaration'', base_ExportAllDeclaration),
      (''ImportDeclaration'', base_ImportDeclaration),
      (''ModuleSpecifier'', skipThrough),
      (''ImportSpecifier'', ignore),
      (''ImportDefaultSpecifier'', ignore),
      (''ImportNamespaceSpecifier'', ignore),
      (''ExportSpecifier'', ignore),
      (''Identifier'', ignore),
      (''Literal'', ignore),
      (''TaggedTemplateExpression'', base_TaggedTemplateExpression),
      (''ClassDeclaration'', base_ClassDeclaration),
      (''ClassExpression'', base_ClassDeclaration),
      (''Class'', base_Class),
      (''ClassBody'', base_ClassBody),
      (''MethodDefinition'', base_MethodDefinition),
      (''Property'', base_MethodDefinition)]"

definition base :: registry where
  "base = map_of base_entries"

section \<open>Traversal primitives\<close>

text \<open>\<open>override || node.type\<close>: an override that is the empty string is falsy.\<close>

definition effective_type :: "string option \<Rightarrow> string \<Rightarrow> string" where
  "effective_type override ty =
     (case override of None \<Rightarrow> ty | Some ov \<Rightarrow> if ov = [] then ty else ov)"

text \<open>\<open>if (!base) base = exports.base\<close>.\<close>

definition default_base :: "registry option \<Rightarrow> registry" where
  "default_base b = (case b of None \<Rightarrow> base | Some r \<Rightarrow> r)"

text \<open>
  What a call can throw: an error, or the match sentinel \<open>new Found(node, st)\<close> of the
  searches.
\<close>

datatype 's thrown = Err error | Found jsval 's

text \<open>
  Running the body of an entry with the continuation \<open>c\<close>.  The continuation threads a
  value \<open>a\<close> (what the walk has done and remembered so far) and returns \<open>None\<close> when
  the recursion is deeper than the fuel allows, otherwise the new \<open>a\<close> and what it threw,
  if anything.  The body stops at the first throw.
\<close>

fun run_steps ::
  "('a \<Rightarrow> jsval \<Rightarrow> string option \<Rightarrow> ('a \<times> 's thrown option) option) \<Rightarrow> 'a \<Rightarrow> step list \<Rightarrow>
     ('a \<times> 's thrown option) option" where
  "run_steps c a [] = Some (a, None)"
| "run_steps c a (Raise # rest) = Some (a, Some (Err TypeError))"
| "run_steps c a (Call v ov # rest) =
     (case c a v ov of
        None \<Rightarrow> None
      | Some (a', Some x) \<Rightarrow> Some (a', Some x)
      | Some (a', None) \<Rightarrow> run_steps c a' rest)"

subsection \<open>simple\<close>

text \<open>
  The visitors object maps type names to callbacks.  The walk is observed through the
  calls \<open>found(node, st)\<close> it makes, in order; \<open>tr\<close> is the list of the calls made so
  far.  The first argument bounds the depth of the recursion.
\<close>

type_synonym ('cb, 's) visit = "'cb \<times> jsval \<times> 's"

fun simple_c ::
  "nat \<Rightarrow> (string \<Rightarrow> 'cb option) \<Rightarrow> registry \<Rightarrow> 's \<Rightarrow> ('cb, 's) visit list \<Rightarrow> jsval \<Rightarrow>
     string option \<Rightarrow> (('cb, 's) visit list \<times> 's thrown option) option" where
  "simple_c 0 visitors reg st tr node override = None"
| "simple_c (Suc n) visitors reg st tr node override =
     (case ntype node of
        None \<Rightarrow> Some (tr, Some (Err TypeError))
      | Some ty \<Rightarrow>
         (let type = effective_type override ty; found = visitors type in
          case reg type of
            None \<Rightarrow> Some (tr, Some (Err TypeError))
          | Some entry \<Rightarrow>
             (case run_steps (simple_c n visitors reg st) tr (entry node) of
                None \<Rightarrow> None
              | Some (tr', Some x) \<Rightarrow> Some (tr', Some x)
              | Some (tr', None) \<Rightarrow>
                 (case found of
                    None \<Rightarrow> Some (tr', None)
                  | Some f \<Rightarrow> Some (tr' @ [(f, node, st)], None)))))"

definition simple ::
  "nat \<Rightarrow> jsval \<Rightarrow> (string \<Rightarrow> 'cb option) \<Rightarrow> registry option \<Rightarrow> 's \<Rightarrow> string option \<Rightarrow>
     (('cb, 's) visit list \<times> 's thrown option) option" where
  "simple n node visitors b state override =
     simple_c n visitors (default_base b) state [] node override"

subsection \<open>ancestor\<close>

text \<open>
  The walk is observed through the calls \<open>found(node, st || ancestors, ancestors)\<close>;
  each records the sequence as it is at the call.  The state is a JavaScript value, for
  \<open>st || ancestors\<close> tests its truthiness.  \<open>node != ancestors[ancestors.length - 1]\<close>
  compares object identities; a node and a proper part of it are different values, and
  the same object is the same value.  The objects are those of the tree: an entry is
  modelled by the parts of the tree it hands on, so an entry that builds a copy of a node
  and hands that on is not among the registries described here.
\<close>

type_synonym 'cb ancestor_visit = "'cb \<times> jsval \<times> jsval \<times> jsval list"

fun ancestor_c ::
  "nat \<Rightarrow> (string \<Rightarrow> 'cb option) \<Rightarrow> registry \<Rightarrow> jsval \<Rightarrow>
     jsval list \<times> 'cb ancestor_visit list \<Rightarrow> jsval \<Rightarrow> string option \<Rightarrow>
     ((jsval list \<times> 'cb ancestor_visit list) \<times> jsval thrown option) option" where
  "ancestor_c 0 visitors reg st a node override = None"
| "ancestor_c (Suc n) visitors reg st a node override =
     (case ntype node of
        None \<Rightarrow> Some (a, Some (Err TypeError))
      | Some ty \<Rightarrow>
         (let type = effective_type override ty; found = visitors type;
              ancestors = fst a;
              isNew = (ancestors = [] \<or> node \<noteq> last ancestors);
              ancestors = (if isNew then ancestors @ [node] else ancestors) in
          case reg type of
            None \<Rightarrow> Some ((ancestors, snd a), Some (Err TypeError))
          | Some entry \<Rightarrow>
             (case run_steps (ancestor_c n visitors reg st) (ancestors, snd a) (entry node) of
                None \<Rightarrow> None
              | Some (a', Some x) \<Rightarrow> Some (a', Some x)
              | Some ((ancestors, tr), None) \<Rightarrow>
                 (let tr = (case found of
                              None \<Rightarrow> tr
                            | Some f \<Rightarrow>
                                tr @ [(f, node, if truthy st then st else Arr ancestors,
                                       ancestors)]);
                      ancestors = (if isNew then butlast ancestors else ancestors)
                  in Some ((ancestors, tr), None)))))"

definition ancestor ::
  "nat \<Rightarrow> jsval \<Rightarrow> (string \<Rightarrow> 'cb option) \<Rightarrow> registry option \<Rightarrow> jsval \<Rightarrow>
     ('cb ancestor_visit list \<times> jsval thrown option) option" where
  "ancestor n node visitors b state =
     (case ancestor_c n visitors (default_base b) state ([], []) node None of
        None \<Rightarrow> None
      | Some ((ancestors, tr), x) \<Rightarrow> Some (tr, x))"

subsection \<open>The find family\<close>

text \<open>
  The \<open>test\<close> argument: absent, \<open>null\<close>, a string, or a predicate of type and node.
  (Any other falsy value does what \<open>null\<close> does; any other truthy value is returned
  as it is, and calling it is a TypeError.)
\<close>

datatype typeTest =
    TestAbsent
  | TestNull
  | TestString string
  | TestFunction "string \<Rightarrow> jsval \<Rightarrow> bool"

fun makeTest :: "typeTest \<Rightarrow> string \<Rightarrow> jsval \<Rightarrow> bool" where
  "makeTest (TestString test) = (\<lambda>type node. type = test)"
| "makeTest TestAbsent = (\<lambda>type node. True)"
| "makeTest TestNull = (\<lambda>type node. True)"
| "makeTest (TestFunction test) = test"

text \<open>
  A search is observed through its calls of registry entries and of the test, in order;
  its result is the \<open>Found\<close> object caught at the top, \<open>undefined\<close>, or the error that
  escaped.
\<close>

datatype probe = Descend string jsval | Test string jsval

type_synonym 's find_result = "((error + (jsval \<times> 's) option) \<times> probe list) option"

definition catch_Found :: "(probe list \<times> 's thrown option) option \<Rightarrow> 's find_result" where
  "catch_Found r =
     (case r of
        None \<Rightarrow> None
      | Some (tr, None) \<Rightarrow> Some (Inr None, tr)
      | Some (tr, Some (Found node st)) \<Rightarrow> Some (Inr (Some (node, st)), tr)
      | Some (tr, Some (Err e)) \<Rightarrow> Some (Inl e, tr))"

text \<open>
  \<open>bound == null || cmp(x, bound)\<close>.  In \<open>findNodeAt\<close>, a value that is not a node
  and not \<open>undefined\<close> or \<open>null\<close> has offsets that read as \<open>undefined\<close>, and every
  comparison with a bound is false: with a bound given, the continuation neither descends
  nor tests, and returns.
\<close>

definition null_or :: "int option \<Rightarrow> (int \<Rightarrow> bool) \<Rightarrow> bool" where
  "null_or bound cmp = (case bound of None \<Rightarrow> True | Some b \<Rightarrow> cmp b)"

fun findNodeAt_c ::
  "nat \<Rightarrow> int option \<Rightarrow> int option \<Rightarrow> (string \<Rightarrow> jsval \<Rightarrow> bool) \<Rightarrow> registry \<Rightarrow> 's \<Rightarrow>
     probe list \<Rightarrow> jsval \<Rightarrow> string option \<Rightarrow> (probe list \<times> 's thrown option) option" where
  "findNodeAt_c 0 start end test reg st tr node override = None"
| "findNodeAt_c (Suc n) start end test reg st tr node override =
     (case ntype node of
        None \<Rightarrow>
          if nullish node \<or> (start = None \<and> end = None) then Some (tr, Some (Err TypeError))
          else Some (tr, None)
      | Some ty \<Rightarrow>
         (let type = effective_type override ty in
          case (if null_or start (\<lambda>s. nstart node \<le> s) \<and> null_or end (\<lambda>e. nend node \<ge> e)
                then (case reg type of
                        None \<Rightarrow> Some (tr, Some (Err TypeError))
                      | Some entry \<Rightarrow>
                          run_steps (findNodeAt_c n start end test reg st)
                            (tr @ [Descend type node]) (entry node))
                else Some (tr, None)) of
            None \<Rightarrow> None
          | Some (tr', Some x) \<Rightarrow> Some (tr', Some x)
          | Some (tr', None) \<Rightarrow>
              if null_or start (\<lambda>s. nstart node = s) \<and> null_or end (\<lambda>e. nend node = e)
              then (if test type node
                    then Some (tr' @ [Test type node], Some (Found node st))
                    else Some (tr' @ [Test type node], None))
              else Some (tr', None)))"

definition findNodeAt ::
  "nat \<Rightarrow> jsval \<Rightarrow> int option \<Rightarrow> int option \<Rightarrow> typeTest \<Rightarrow> registry option \<Rightarrow> 's \<Rightarrow>
     's find_result" where
  "findNodeAt n node start end test b state =
     catch_Found (findNodeAt_c n start end (makeTest test) (default_base b) state [] node None)"

fun findNodeAround_c ::
  "nat \<Rightarrow> int \<Rightarrow> (string \<Rightarrow> jsval \<Rightarrow> bool) \<Rightarrow> registry \<Rightarrow> 's \<Rightarrow>
     probe list \<Rightarrow> jsval \<Rightarrow> string option \<Rightarrow> (probe list \<times> 's thrown option) option" where
  "findNodeAround_c 0 pos test reg st tr node override = None"
| "findNodeAround_c (Suc n) pos test reg st tr node override =
     (case ntype node of
        None \<Rightarrow> Some (tr, Some (Err TypeError))
      | Some ty \<Rightarrow>
         (let type = effective_type override ty in
          if nstart node > pos \<or> nend node < pos then Some (tr, None)
          else
            case reg type of
              None \<Rightarrow> Some (tr, Some (Err TypeError))
            | Some entry \<Rightarrow>
               (case run_steps (findNodeAround_c n pos test reg st)
                       (tr @ [Descend type node]) (entry node) of
                  None \<Rightarrow> None
                | Some (tr', Some x) \<Rightarrow> Some (tr', Some x)
                | Some (tr', None) \<Rightarrow>
                    if test type node
                    then Some (tr' @ [Test type node], Some (Found node st))
                    else Some (tr' @ [Test type node], None))))"

definition findNodeAround ::
  "nat \<Rightarrow> jsval \<Rightarrow> int \<Rightarrow> typeTest \<Rightarrow> registry option \<Rightarrow> 's \<Rightarrow> 's find_result" where
  "findNodeAround n node pos test b state =
     catch_Found (findNodeAround_c n pos (makeTest test) (default_base b) state [] node None)"

fun findNodeAfter_c ::
  "nat \<Rightarrow> int \<Rightarrow> (string \<Rightarrow> jsval \<Rightarrow> bool) \<Rightarrow> registry \<Rightarrow> 's \<Rightarrow>
     probe list \<Rightarrow> jsval \<Rightarrow> string option \<Rightarrow> (probe list \<times> 's thrown option) option" where
  "findNodeAfter_c 0 pos test reg st tr node override = None"
| "findNodeAfter_c (Suc n) pos test reg st tr node override =
     (case ntype node of
        None \<Rightarrow> Some (tr, Some (Err TypeError))
      | Some ty \<Rightarrow>
          if nend node < pos then Some (tr, None)
          else
           (let type = effective_type override ty in
            if nstart node \<ge> pos \<and> test type node
            then Some (tr @ [Test type node], Some (Found node st))
            else
             (let tr = (if nstart node \<ge> pos then tr @ [Test type node] else tr) in
              case reg type of
                None \<Rightarrow> Some (tr, Some (Err TypeError))
              | Some entry \<Rightarrow>
                  run_steps (findNodeAfter_c n pos test reg st)
                    (tr @ [Descend type node]) (entry node))))"

definition findNodeAfter ::
  "nat \<Rightarrow> jsval \<Rightarrow> int \<Rightarrow> typeTest \<Rightarrow> registry option \<Rightarrow> 's \<Rightarrow> 's find_result" where
  "findNodeAfter n node pos test b state =
     catch_Found (findNodeAfter_c n pos (makeTest test) (default_base b) state [] node None)"

text \<open>
  \<open>findNodeBefore\<close> keeps the best match so far in the variable \<open>max\<close> (here
  \<open>best\<close>), which the continuation reads and assigns; it is threaded with the trace.  The test is called only
  for a node that ends at or before \<open>pos\<close> and after the best match so far.
\<close>

fun findNodeBefore_c ::
  "nat \<Rightarrow> int \<Rightarrow> (string \<Rightarrow> jsval \<Rightarrow> bool) \<Rightarrow> registry \<Rightarrow> 's \<Rightarrow>
     (jsval \<times> 's) option \<times> probe list \<Rightarrow> jsval \<Rightarrow> string option \<Rightarrow>
     (((jsval \<times> 's) option \<times> probe list) \<times> 's thrown option) option" where
  "findNodeBefore_c 0 pos test reg st a node override = None"
| "findNodeBefore_c (Suc n) pos test reg st a node override =
     (case ntype node of
        None \<Rightarrow> Some (a, Some (Err TypeError))
      | Some ty \<Rightarrow>
          if nstart node > pos then Some (a, None)
          else
           (let type = effective_type override ty; best = fst a; tr = snd a;
                candidate = (nend node \<le> pos \<and>
                   (case best of None \<Rightarrow> True | Some m \<Rightarrow> nend (fst m) < nend node));
                best = (if candidate \<and> test type node then Some (node, st) else best);
                tr = (if candidate then tr @ [Test type node] else tr) in
            case reg type of
              None \<Rightarrow> Some ((best, tr), Some (Err TypeError))
            | Some entry \<Rightarrow>
                run_steps (findNodeBefore_c n pos test reg st)
                  (best, tr @ [Descend type node]) (entry node)))"

definition findNodeBefore ::
  "nat \<Rightarrow> jsval \<Rightarrow> int \<Rightarrow> typeTest \<Rightarrow> registry option \<Rightarrow> 's \<Rightarrow> 's find_result" where
  "findNodeBefore n node pos test b state =
     (case findNodeBefore_c n pos (makeTest test) (default_base b) state (None, []) node None of
        None \<Rightarrow> None
      | Some ((best, tr), None) \<Rightarrow> Some (Inr best, tr)
      | Some ((best, tr), Some (Found node st)) \<Rightarrow> Some (Inr (Some (node, st)), tr)
      | Some ((best, tr), Some (Err e)) \<Rightarrow> Some (Inl e, tr))"

section \<open>The dispatch tree\<close>

text \<open>
  What the registry makes of a tree when nothing is pruned: the tree of the calls of the
  continuation, each labelled with its node and its effective type.  It is defined when
  every call reaches a node that has an entry, no entry raises, and the calls nest no
  deeper than the bound; this is what the specification calls a well-formed tree.
\<close>

datatype dtree = DT jsval string "dtree list"

fun unfold_steps ::
  "(jsval \<Rightarrow> string option \<Rightarrow> dtree option) \<Rightarrow> step list \<Rightarrow> dtree list option" where
  "unfold_steps u [] = Some []"
| "unfold_steps u (Raise # rest) = None"
| "unfold_steps u (Call v ov # rest) =
     (case u v ov of
        None \<Rightarrow> None
      | Some d \<Rightarrow> (case unfold_steps u rest of None \<Rightarrow> None | Some ds \<Rightarrow> Some (d # ds)))"

fun unfold :: "nat \<Rightarrow> registry \<Rightarrow> jsval \<Rightarrow> string option \<Rightarrow> dtree option" where
  "unfold 0 reg node override = None"
| "unfold (Suc n) reg node override =
     (case ntype node of
        None \<Rightarrow> None
      | Some ty \<Rightarrow>
         (let type = effective_type override ty in
          case reg type of
            None \<Rightarrow> None
          | Some entry \<Rightarrow>
             (case unfold_steps (unfold n reg) (entry node) of
                None \<Rightarrow> None
              | Some kids \<Rightarrow> Some (DT node type kids))))"

fun dnode :: "dtree \<Rightarrow> jsval" where
  "dnode (DT v t kids) = v"

fun dlabel :: "dtree \<Rightarrow> jsval \<times> string" where
  "dlabel (DT v t kids) = (v, t)"

fun dkids :: "dtree \<Rightarrow> dtree list" where
  "dkids (DT v t kids) = kids"

fun preorder :: "dtree \<Rightarrow> (jsval \<times> string) list" where
  "preorder (DT v t kids) = (v, t) # concat (map preorder kids)"

fun postorder :: "dtree \<Rightarrow> (jsval \<times> string) list" where
  "postorder (DT v t kids) = concat (map postorder kids) @ [(v, t)]"

text \<open>
  Running the calls of an entry over the dispatch trees of its children: \<open>G d a\<close> is
  what the call that unfolds into \<open>d\<close> makes of \<open>a\<close>; the first throw ends the run.
\<close>

fun seq_kids ::
  "(dtree \<Rightarrow> 'a \<Rightarrow> 'a \<times> 'x option) \<Rightarrow> dtree list \<Rightarrow> 'a \<Rightarrow> 'a \<times> 'x option" where
  "seq_kids G [] a = (a, None)"
| "seq_kids G (d # ds) a =
     (case G d a of (a', Some x) \<Rightarrow> (a', Some x) | (a', None) \<Rightarrow> seq_kids G ds a')"

text \<open>
  The visitor calls that a list of dispatches gives rise to: one call for each dispatch
  whose effective type has a visitor, in the order of the list.
\<close>

definition callbacks ::
  "(string \<Rightarrow> 'cb option) \<Rightarrow> 's \<Rightarrow> (jsval \<times> string) list \<Rightarrow> ('cb, 's) visit list" where
  "callbacks visitors st xs =
     concat (map (\<lambda>(v, t). case visitors t of None \<Rightarrow> [] | Some f \<Rightarrow> [(f, v, st)]) xs)"

section \<open>Example trees\<close>

text \<open>The program \<open>f(g(x))\<close>.\<close>

definition ex_f :: jsval where
  "ex_f = Node ''Identifier'' 0 1 [(''name'', Str ''f'')]"

definition ex_g :: jsval where
  "ex_g = Node ''Identifier'' 2 3 [(''name'', Str ''g'')]"

definition ex_x :: jsval where
  "ex_x = Node ''Identifier'' 4 5 [(''name'', Str ''x'')]"

definition ex_inner :: jsval where
  "ex_inner = Node ''CallExpression'' 2 6 [(''callee'', ex_g), (''arguments'', Arr [ex_x])]"

definition ex_outer :: jsval where
  "ex_outer = Node ''CallExpression'' 0 7 [(''callee'', ex_f), (''arguments'', Arr [ex_inner])]"

definition ex_stmt :: jsval where
  "ex_stmt = Node ''ExpressionStatement'' 0 7 [(''expression'', ex_outer)]"

definition ex_program :: jsval where
  "ex_program = Node ''Program'' 0 7 [(''body'', Arr [ex_stmt])]"

definition ex_leaf :: "jsval \<Rightarrow> dtree" where
  "ex_leaf v = DT v ''Expression'' [DT v ''Identifier'' []]"

definition ex_program_dtree :: dtree where
  "ex_program_dtree =
     DT ex_program ''Program''
      [DT ex_stmt ''Statement''
        [DT ex_stmt ''ExpressionStatement''
          [DT ex_outer ''Expression''
            [DT ex_outer ''CallExpression''
              [ex_leaf ex_f,
               DT ex_inner ''Expression''
                [DT ex_inner ''CallExpression'' [ex_leaf ex_g, ex_leaf ex_x]]]]]]]"







section \<open>Paths in the dispatch tree\<close>

text \<open>
  The dispatches in post-order, each with its dispatch path: the nodes of the dispatches
  from the root down to it, itself included.  \<open>p\<close> is the path above the tree.
\<close>

fun post_paths :: "jsval list \<Rightarrow> dtree \<Rightarrow> (jsval list \<times> jsval \<times> string) list" where
  "post_paths p (DT v t kids) = concat (map (post_paths (p @ [v])) kids) @ [(p @ [v], v, t)]"

text \<open>The values that are proper parts of a value.\<close>

fun parts :: "jsval \<Rightarrow> jsval list" where
  "parts (Arr xs) = concat (map (\<lambda>x. x # parts x) xs)"
| "parts (Node ty s e fs) = concat (map (\<lambda>kv. snd kv # parts (snd kv)) fs)"
| "parts _ = []"

fun weight :: "jsval \<Rightarrow> nat" where
  "weight (Arr xs) = Suc (sum_list (map weight xs))"
| "weight (Node ty s e fs) = Suc (sum_list (map (\<lambda>kv. weight (snd kv)) fs))"
| "weight _ = 0"

text \<open>
  A dispatch tree is structural when every entry hands to the continuation the node
  itself or a proper part of it, as the entries of \<open>base\<close> do.
\<close>

fun structural :: "dtree \<Rightarrow> bool" where
  "structural (DT v t kids) =
     (\<forall>k \<in> set kids. (dnode k = v \<or> dnode k \<in> set (parts v)) \<and> structural k)"

text \<open>
  The same of a registry entry: whatever node it is run on, the nodes it hands to the
  continuation are that node or proper parts of it.
\<close>

definition hands_on_parts :: "walker_fn \<Rightarrow> bool" where
  "hands_on_parts entry =
     (\<forall>v x ov. Call x ov \<in> set (entry v) \<longrightarrow> is_node x \<longrightarrow> x = v \<or> x \<in> set (parts v))"

definition chain :: "jsval list \<Rightarrow> bool" where
  "chain p = successively (\<lambda>a b. b = a \<or> b \<in> set (parts a)) p"

text \<open>
  The visitor calls of an ancestor walk that a list of dispatches with their paths gives
  rise to: the sequence passed is the path with repeated dispatches of one node
  collapsed.
\<close>

definition ancestor_calls ::
  "(string \<Rightarrow> 'cb option) \<Rightarrow> jsval \<Rightarrow> (jsval list \<times> jsval \<times> string) list \<Rightarrow>
     'cb ancestor_visit list" where
  "ancestor_calls visitors st xs =
     concat (map (\<lambda>(p, v, t).
        case visitors t of
          None \<Rightarrow> []
        | Some f \<Rightarrow> [(f, v, if truthy st then st else Arr (remdups_adj p), remdups_adj p)]) xs)"

text \<open>
  The nodes of a syntax tree with their depth in it: the root has depth one, and a node
  held in a field of a node (directly or in an array) is one deeper than that node.
\<close>

fun node_depths :: "nat \<Rightarrow> jsval \<Rightarrow> (jsval \<times> nat) list" where
  "node_depths k (Node ty s e fs) =
     (Node ty s e fs, Suc k) # concat (map (\<lambda>kv. node_depths (Suc k) (snd kv)) fs)"
| "node_depths k (Arr xs) = concat (map (node_depths k) xs)"
| "node_depths k _ = []"

text \<open>
  The children of a node in the syntax tree: the nodes held in its fields, directly or in
  an array.  A list of nodes is a lineage when each is a child of the one before it; a
  lineage that starts at the root is the list of the ancestors of its last node, that
  node included.
\<close>

fun held :: "jsval \<Rightarrow> jsval list" where
  "held (Node ty s e fs) = [Node ty s e fs]"
| "held (Arr xs) = concat (map held xs)"
| "held _ = []"

fun children :: "jsval \<Rightarrow> jsval list" where
  "children (Node ty s e fs) = concat (map (\<lambda>kv. held (snd kv)) fs)"
| "children _ = []"

definition lineage :: "jsval list \<Rightarrow> bool" where
  "lineage p = successively (\<lambda>a b. b \<in> set (children a)) p"

text \<open>
  An entry hands on children when, whatever node it is run on, the nodes it hands to the
  continuation are that node or children of it.  Every entry of \<open>base\<close> does but that
  of \<open>ObjectPattern\<close>; \<open>child_step\<close> is what this makes of one step of a dispatch path
  under \<open>base\<close>, and \<open>steps_in\<close> says that every step of a dispatch tree is in a
  relation.
\<close>

definition hands_on_children :: "walker_fn \<Rightarrow> bool" where
  "hands_on_children entry =
     (\<forall>v x ov. Call x ov \<in> set (entry v) \<longrightarrow> is_node x \<longrightarrow> x = v \<or> x \<in> set (children v))"

definition child_step :: "jsval \<Rightarrow> jsval \<Rightarrow> bool" where
  "child_step a b = (ntype a = Some ''ObjectPattern'' \<or> b = a \<or> b \<in> set (children a))"

fun steps_in :: "(jsval \<Rightarrow> jsval \<Rightarrow> bool) \<Rightarrow> dtree \<Rightarrow> bool" where
  "steps_in R (DT v t kids) = (\<forall>k \<in> set kids. R v (dnode k) \<and> steps_in R k)"

text \<open>The program \<open>({a: b} = x)\<close>.\<close>

definition ex_pa :: jsval where
  "ex_pa = Node ''Identifier'' 2 3 [(''name'', Str ''a'')]"

definition ex_pb :: jsval where
  "ex_pb = Node ''Identifier'' 5 6 [(''name'', Str ''b'')]"

definition ex_px :: jsval where
  "ex_px = Node ''Identifier'' 10 11 [(''name'', Str ''x'')]"

definition ex_property :: jsval where
  "ex_property = Node ''Property'' 2 6
     [(''key'', ex_pa), (''value'', ex_pb), (''computed'', Bool False), (''kind'', Str ''init'')]"

definition ex_pattern :: jsval where
  "ex_pattern = Node ''ObjectPattern'' 1 7 [(''properties'', Arr [ex_property])]"

definition ex_assign :: jsval where
  "ex_assign = Node ''AssignmentExpression'' 1 11
     [(''operator'', Str ''=''), (''left'', ex_pattern), (''right'', ex_px)]"

definition ex_pstmt :: jsval where
  "ex_pstmt = Node ''ExpressionStatement'' 0 12 [(''expression'', ex_assign)]"

definition ex_pprogram :: jsval where
  "ex_pprogram = Node ''Program'' 0 12 [(''body'', Arr [ex_pstmt])]"

section \<open>The searches on the dispatch tree\<close>

text \<open>
  The four continuations again, run on a dispatch tree instead of a syntax tree and a
  registry: what each search does on a tree that the registry unfolds.  They are shown
  below to agree with the continuations above, and carry the proofs.
\<close>

fun at_dt ::
  "int option \<Rightarrow> int option \<Rightarrow> (string \<Rightarrow> jsval \<Rightarrow> bool) \<Rightarrow> 's \<Rightarrow> dtree \<Rightarrow> probe list \<Rightarrow>
     probe list \<times> 's thrown option"
and at_dts ::
  "int option \<Rightarrow> int option \<Rightarrow> (string \<Rightarrow> jsval \<Rightarrow> bool) \<Rightarrow> 's \<Rightarrow> dtree list \<Rightarrow> probe list \<Rightarrow>
     probe list \<times> 's thrown option" where
  "at_dt start end test st (DT v t kids) tr =
     (case (if null_or start (\<lambda>s. nstart v \<le> s) \<and> null_or end (\<lambda>e. nend v \<ge> e)
            then at_dts start end test st kids (tr @ [Descend t v])
            else (tr, None)) of
        (tr', Some x) \<Rightarrow> (tr', Some x)
      | (tr', None) \<Rightarrow>
          if null_or start (\<lambda>s. nstart v = s) \<and> null_or end (\<lambda>e. nend v = e)
          then (if test t v then (tr' @ [Test t v], Some (Found v st))
                else (tr' @ [Test t v], None))
          else (tr', None))"
| "at_dts start end test st [] tr = (tr, None)"
| "at_dts start end test st (d # ds) tr =
     (case at_dt start end test st d tr of
        (tr', Some x) \<Rightarrow> (tr', Some x)
      | (tr', None) \<Rightarrow> at_dts start end test st ds tr')"

fun around_dt ::
  "int \<Rightarrow> (string \<Rightarrow> jsval \<Rightarrow> bool) \<Rightarrow> 's \<Rightarrow> dtree \<Rightarrow> probe list \<Rightarrow>
     probe list \<times> 's thrown option"
and around_dts ::
  "int \<Rightarrow> (string \<Rightarrow> jsval \<Rightarrow> bool) \<Rightarrow> 's \<Rightarrow> dtree list \<Rightarrow> probe list \<Rightarrow>
     probe list \<times> 's thrown option" where
  "around_dt pos test st (DT v t kids) tr =
     (if nstart v > pos \<or> nend v < pos then (tr, None)
      else
        case around_dts pos test st kids (tr @ [Descend t v]) of
          (tr', Some x) \<Rightarrow> (tr', Some x)
        | (tr', None) \<Rightarrow>
            if test t v then (tr' @ [Test t v], Some (Found v st))
            else (tr' @ [Test t v], None))"
| "around_dts pos test st [] tr = (tr, None)"
| "around_dts pos test st (d # ds) tr =
     (case around_dt pos test st d tr of
        (tr', Some x) \<Rightarrow> (tr', Some x)
      | (tr', None) \<Rightarrow> around_dts pos test st ds tr')"

fun after_dt ::
  "int \<Rightarrow> (string \<Rightarrow> jsval \<Rightarrow> bool) \<Rightarrow> 's \<Rightarrow> dtree \<Rightarrow> probe list \<Rightarrow>
     probe list \<times> 's thrown option"
and after_dts ::
  "int \<Rightarrow> (string \<Rightarrow> jsval \<Rightarrow> bool) \<Rightarrow> 's \<Rightarrow> dtree list \<Rightarrow> probe list \<Rightarrow>
     probe list \<times> 's thrown option" where
  "after_dt pos test st (DT v t kids) tr =
     (if nend v < pos then (tr, None)
      else if nstart v \<ge> pos \<and> test t v then (tr @ [Test t v], Some (Found v st))
      else after_dts pos test st kids
             ((if nstart v \<ge> pos then tr @ [Test t v] else tr) @ [Descend t v]))"
| "after_dts pos test st [] tr = (tr, None)"
| "after_dts pos test st (d # ds) tr =
     (case after_dt pos test st d tr of
        (tr', Some x) \<Rightarrow> (tr', Some x)
      | (tr', None) \<Rightarrow> after_dts pos test st ds tr')"

definition candidate :: "int \<Rightarrow> (jsval \<times> 's) option \<Rightarrow> jsval \<Rightarrow> bool" where
  "candidate pos best v =
     (nend v \<le> pos \<and> (case best of None \<Rightarrow> True | Some m \<Rightarrow> nend (fst m) < nend v))"

fun before_dt ::
  "int \<Rightarrow> (string \<Rightarrow> jsval \<Rightarrow> bool) \<Rightarrow> 's \<Rightarrow> dtree \<Rightarrow> (jsval \<times> 's) option \<times> probe list \<Rightarrow>
     ((jsval \<times> 's) option \<times> probe list) \<times> 's thrown option"
and before_dts ::
  "int \<Rightarrow> (string \<Rightarrow> jsval \<Rightarrow> bool) \<Rightarrow> 's \<Rightarrow> dtree list \<Rightarrow> (jsval \<times> 's) option \<times> probe list \<Rightarrow>
     ((jsval \<times> 's) option \<times> probe list) \<times> 's thrown option" where
  "before_dt pos test st (DT v t kids) a =
     (if nstart v > pos then (a, None)
      else before_dts pos test st kids
             (if candidate pos (fst a) v \<and> test t v then Some (v, st) else fst a,
              (if candidate pos (fst a) v then snd a @ [Test t v] else snd a) @ [Descend t v]))"
| "before_dts pos test st [] a = (a, None)"
| "before_dts pos test st (d # ds) a =
     (case before_dt pos test st d a of
        (a', Some x) \<Rightarrow> (a', Some x)
      | (a', None) \<Rightarrow> before_dts pos test st ds a')"

section \<open>Reading traces, and the shape of trees\<close>

text \<open>The dispatches a search descended into, and the tests it made, in order.\<close>

fun descents :: "probe list \<Rightarrow> (jsval \<times> string) list" where
  "descents [] = []"
| "descents (Descend t v # tr) = (v, t) # descents tr"
| "descents (Test t v # tr) = descents tr"

fun tests :: "probe list \<Rightarrow> (jsval \<times> string) list" where
  "tests [] = []"
| "tests (Descend t v # tr) = tests tr"
| "tests (Test t v # tr) = (v, t) # tests tr"

text \<open>
  The invariant of the data model: offsets are ordered, and the interval of every node an
  entry hands on lies within the interval of the node.
\<close>

fun nested :: "dtree \<Rightarrow> bool" where
  "nested (DT v t kids) =
     (nstart v \<le> nend v \<and>
      (\<forall>k \<in> set kids. nstart v \<le> nstart (dnode k) \<and> nend (dnode k) \<le> nend v \<and> nested k))"

text \<open>
  \<open>findNodeBefore\<close>: the dispatches in pre-order, without those below a node that
  starts after \<open>pos\<close>; the update of the best match at one dispatch; the dispatches that
  qualify; and what it is for \<open>r\<close> to be the first of the widest: nothing before it among
  the qualifying dispatches ends as late, nothing after it ends later.
\<close>

fun before_scan :: "int \<Rightarrow> dtree \<Rightarrow> (jsval \<times> string) list" where
  "before_scan pos (DT v t kids) =
     (if nstart v > pos then [] else (v, t) # concat (map (before_scan pos) kids))"

definition improve ::
  "int \<Rightarrow> (string \<Rightarrow> jsval \<Rightarrow> bool) \<Rightarrow> 's \<Rightarrow> (jsval \<times> 's) option \<Rightarrow> jsval \<times> string \<Rightarrow>
     (jsval \<times> 's) option" where
  "improve pos test st best x =
     (if candidate pos best (fst x) \<and> test (snd x) (fst x) then Some (fst x, st) else best)"

definition ends_before :: "int \<Rightarrow> (string \<Rightarrow> jsval \<Rightarrow> bool) \<Rightarrow> jsval \<times> string \<Rightarrow> bool" where
  "ends_before pos test x = (nend (fst x) \<le> pos \<and> test (snd x) (fst x))"

definition first_max ::
  "(jsval \<times> string) list \<Rightarrow> (jsval \<times> 's) option \<Rightarrow> 's \<Rightarrow> bool" where
  "first_max qs r st =
     (case r of
        None \<Rightarrow> qs = []
      | Some (N, s) \<Rightarrow> s = st \<and>
          (\<exists>T pre post. qs = pre @ (N, T) # post
             \<and> (\<forall>y \<in> set pre. nend (fst y) < nend N)
             \<and> (\<forall>y \<in> set post. nend (fst y) \<le> nend N)))"

text \<open>Three statements in a row, ending at 5, 12 and 20.\<close>

definition ex_e1 :: jsval where
  "ex_e1 = Node ''Identifier'' 0 4 [(''name'', Str ''aaaa'')]"

definition ex_e2 :: jsval where
  "ex_e2 = Node ''Identifier'' 6 11 [(''name'', Str ''bbbbb'')]"

definition ex_e3 :: jsval where
  "ex_e3 = Node ''Identifier'' 13 19 [(''name'', Str ''cccccc'')]"

definition ex_s1 :: jsval where
  "ex_s1 = Node ''ExpressionStatement'' 0 5 [(''expression'', ex_e1)]"

definition ex_s2 :: jsval where
  "ex_s2 = Node ''ExpressionStatement'' 6 12 [(''expression'', ex_e2)]"

definition ex_s3 :: jsval where
  "ex_s3 = Node ''ExpressionStatement'' 13 20 [(''expression'', ex_e3)]"

definition ex_three :: jsval where
  "ex_three = Node ''Program'' 0 20 [(''body'', Arr [ex_s1, ex_s2, ex_s3])]"

definition ex_statement :: "jsval \<Rightarrow> jsval \<Rightarrow> dtree" where
  "ex_statement s e =
     DT s ''Statement''
       [DT s ''ExpressionStatement'' [DT e ''Expression'' [DT e ''Identifier'' []]]]"

definition ex_three_dtree :: dtree where
  "ex_three_dtree =
     DT ex_three ''Program''
       [ex_statement ex_s1 ex_e1, ex_statement ex_s2 ex_e2, ex_statement ex_s3 ex_e3]"

text \<open>
  \<open>findNodeAfter\<close>: the dispatches in pre-order, without those below a node that ends
  before \<open>pos\<close>; the dispatches that qualify; and the paths of the dispatch tree, each
  the labels from the root down to one dispatch.
\<close>

fun after_scan :: "int \<Rightarrow> dtree \<Rightarrow> (jsval \<times> string) list" where
  "after_scan pos (DT v t kids) =
     (if nend v < pos then [] else (v, t) # concat (map (after_scan pos) kids))"



text \<open>
  \<open>findNodeAround\<close>: the dispatches in post-order, without those at or below a node
  whose interval does not contain \<open>pos\<close>; the dispatches that qualify; the subtrees of
  a dispatch tree, and the dispatches strictly beneath the root of one.
\<close>

definition contains_pos :: "int \<Rightarrow> jsval \<Rightarrow> bool" where
  "contains_pos pos v = (nstart v \<le> pos \<and> pos \<le> nend v)"

fun around_scan :: "int \<Rightarrow> dtree \<Rightarrow> (jsval \<times> string) list" where
  "around_scan pos (DT v t kids) =
     (if nstart v > pos \<or> nend v < pos then []
      else concat (map (around_scan pos) kids) @ [(v, t)])"

definition around_pos :: "int \<Rightarrow> (string \<Rightarrow> jsval \<Rightarrow> bool) \<Rightarrow> jsval \<times> string \<Rightarrow> bool" where
  "around_pos pos test x = (contains_pos pos (fst x) \<and> test (snd x) (fst x))"

fun subtrees :: "dtree \<Rightarrow> dtree list" where
  "subtrees (DT v t kids) = DT v t kids # concat (map subtrees kids)"

definition beneath :: "dtree \<Rightarrow> (jsval \<times> string) list" where
  "beneath d = concat (map preorder (dkids d))"

text \<open>
  What each search tests, and in which order.  A search applies the test to a dispatch:
  \<open>passes test x\<close> is \<open>test(type, node)\<close> for the node and the effective type of the
  dispatch \<open>x\<close>.  The searches that stop at a match test the dispatches of a list one
  after the other up to the first that passes: \<open>until_first\<close> is that part of the
  list.  \<open>findNodeAt\<close> goes through the dispatches in post-order, without those below a
  node that does not cover the bounds, and tests those whose node has exactly the bounds;
  \<open>findNodeAfter\<close> tests those that start at or after \<open>pos\<close>; \<open>findNodeBefore\<close>
  tests those that end at or before \<open>pos\<close> and after the best match so far.
\<close>

definition passes :: "(string \<Rightarrow> jsval \<Rightarrow> bool) \<Rightarrow> jsval \<times> string \<Rightarrow> bool" where
  "passes test x = test (snd x) (fst x)"

fun until_first :: "('a \<Rightarrow> bool) \<Rightarrow> 'a list \<Rightarrow> 'a list" where
  "until_first q [] = []"
| "until_first q (x # xs) = (if q x then [x] else x # until_first q xs)"

fun at_scan :: "int option \<Rightarrow> int option \<Rightarrow> dtree \<Rightarrow> (jsval \<times> string) list" where
  "at_scan start end (DT v t kids) =
     (if null_or start (\<lambda>s. nstart v \<le> s) \<and> null_or end (\<lambda>e. nend v \<ge> e)
      then concat (map (at_scan start end) kids) else []) @ [(v, t)]"

definition exact_bounds :: "int option \<Rightarrow> int option \<Rightarrow> jsval \<times> string \<Rightarrow> bool" where
  "exact_bounds start end x =
     (null_or start (\<lambda>s. nstart (fst x) = s) \<and> null_or end (\<lambda>e. nend (fst x) = e))"

definition starts_at_or_after :: "int \<Rightarrow> jsval \<times> string \<Rightarrow> bool" where
  "starts_at_or_after pos x = (pos \<le> nstart (fst x))"

fun before_tested ::
  "int \<Rightarrow> (string \<Rightarrow> jsval \<Rightarrow> bool) \<Rightarrow> 's \<Rightarrow> (jsval \<times> 's) option \<Rightarrow> (jsval \<times> string) list \<Rightarrow>
     (jsval \<times> string) list" where
  "before_tested pos test st best [] = []"
| "before_tested pos test st best (x # xs) =
     (if candidate pos best (fst x) then [x] else [])
       @ before_tested pos test st (improve pos test st best x) xs"

text \<open>
  \<open>step_label\<close> is the dispatch that a call of the continuation starts: the child,
  under the override when there is one and under its own type otherwise.
\<close>

fun step_label :: "step \<Rightarrow> jsval \<times> string" where
  "step_label (Call x ov) = (x, effective_type ov (case ntype x of None \<Rightarrow> [] | Some ty \<Rightarrow> ty))"
| "step_label Raise = (Undefined, [])"

section \<open>Registry derivation (make)\<close>

text \<open>
  A registry is a JavaScript object, and \<open>make\<close> builds one whose prototype is the base
  registry.  Objects live in a store, and an address is an index into it: \<open>create\<close>
  puts the new object at the end, so the prototype of an object is older than the object,
  and a property read follows prototype links downwards only.  An object has its own
  enumerable data properties, in the order of their creation, and a prototype link: to
  an object of the store, to \<open>Object.prototype\<close> (as an object literal has it), or to
  nothing.  A function is a value and not an object of the store; as a prototype it
  stands where \<open>Object.prototype\<close> stands, which it inherits from.  Of the properties of
  \<open>Object.prototype\<close> only the accessor \<open>__proto__\<close> is modelled, in assignments; the
  others are left out.
\<close>

datatype 'f pvalue = VFunction 'f | VObject nat | VNull | VUndefined | VPrimitive

datatype link = At nat | Root | NoProto

record 'f obj =
  props :: "(string \<times> 'f pvalue) list"
  proto :: link

type_synonym 'f heap = "'f obj list"

text \<open>
  The own property of an object of that name, or else the prototype's; \<open>None\<close> when no
  object of the chain has the property.
\<close>

function lookup :: "'f heap \<Rightarrow> nat \<Rightarrow> string \<Rightarrow> 'f pvalue option" where
  "lookup h a k =
     (if a < length h then
        (case map_of (props (h ! a)) k of
           Some v \<Rightarrow> Some v
         | None \<Rightarrow>
            (case proto (h ! a) of
               At p \<Rightarrow> if p < a then lookup h p k else None
             | Root \<Rightarrow> None
             | NoProto \<Rightarrow> None))
      else None)"
  by pat_completeness auto
termination
  by (relation "measure (\<lambda>(h, a, k). a)") auto


text \<open>Whether the prototype chain of an object ends in \<open>Object.prototype\<close>.\<close>

function reaches_root :: "'f heap \<Rightarrow> nat \<Rightarrow> bool" where
  "reaches_root h a =
     (if a < length h then
        (case proto (h ! a) of
           At p \<Rightarrow> if p < a then reaches_root h p else False
         | Root \<Rightarrow> True
         | NoProto \<Rightarrow> False)
      else False)"
  by pat_completeness auto
termination
  by (relation "measure (\<lambda>(h, a). a)") auto

text \<open>
  \<open>for (let type in o)\<close>: the enumerable property names of the object, then those of
  its prototype chain that it has not itself, each once.
\<close>

function for_in :: "'f heap \<Rightarrow> nat \<Rightarrow> string list" where
  "for_in h a =
     (if a < length h then
        (let own = rev (remdups (rev (map fst (props (h ! a))))) in
         own @ filter (\<lambda>k. k \<notin> set own)
                 (case proto (h ! a) of
                    At p \<Rightarrow> if p < a then for_in h p else []
                  | Root \<Rightarrow> []
                  | NoProto \<Rightarrow> []))
      else [])"
  by pat_completeness auto
termination
  by (relation "measure (\<lambda>(h, a). a)") auto

declare lookup.simps [simp del] for_in.simps [simp del] reaches_root.simps [simp del]










section \<open>Properties of the node lifecycle\<close>

text \<open>
  C8.  A node opened by \<open>startNode\<close> and closed by \<open>finishNode\<close>, with the \<open>locations\<close>
  and \<open>ranges\<close> options enabled, is closed without failure; its \<open>range\<close> is the pair of
  its \<open>start\<close> and \<open>end\<close>, and both \<open>loc.start\<close> and \<open>loc.end\<close> are set.  The parser
  has moved on between the two calls, so the two parser states differ; only the options
  are those of the same parser.
\<close>

theorem startNode_finishNode_roundtrip:
  assumes "locations (opts p)" and "ranges (opts p)" and "opts p' = opts p"
  shows "\<exists>n s e l. finishNode p' (startNode p) X = Inr n
           \<and> node_type n = Some X
           \<and> node_start n = Some s \<and> node_end n = Some e
           \<and> node_range n = Some (s, e)
           \<and> node_loc n = Some l \<and> loc_start l \<noteq> None \<and> loc_end l \<noteq> None"
  using assms
  by (simp add: finishNode_def startNode_def close_node_def set_loc_end_def set_range_1_def
      new_Node_def SourceLocation_def Let_def)

theorem startNode_finishNode_roundtrip_witness:
  "finishNode
     \<lparr>opts = \<lparr>locations = True, ranges = True, directSourceFile = None\<rparr>,
       pos_start = 9, startLoc = (2, 0), lastTokEnd = 7, lastTokEndLoc = (1, 7)\<rparr>
     (startNode
        \<lparr>opts = \<lparr>locations = True, ranges = True, directSourceFile = None\<rparr>,
          pos_start = 3, startLoc = (1, 3), lastTokEnd = 2, lastTokEndLoc = (1, 2)\<rparr>) ''X''
   = Inr \<lparr>node_start = Some 3, node_end = Some 7, node_type = Some ''X'',
       node_loc = Some \<lparr>loc_start = Some (1, 3), loc_end = Some (1, 7)\<rparr>,
       node_sourceFile = None, node_range = Some (3, 7)\<rparr>"
  using startNode_finishNode_roundtrip
    [of "\<lparr>opts = \<lparr>locations = True, ranges = True, directSourceFile = None\<rparr>,
          pos_start = 3, startLoc = (1, 3), lastTokEnd = 2, lastTokEndLoc = (1, 2)\<rparr>"
        "\<lparr>opts = \<lparr>locations = True, ranges = True, directSourceFile = None\<rparr>,
          pos_start = 9, startLoc = (2, 0), lastTokEnd = 7, lastTokEndLoc = (1, 7)\<rparr>" "''X''"]
  by (simp add: finishNode_def startNode_def close_node_def set_loc_end_def set_range_1_def
      new_Node_def SourceLocation_def has_directSourceFile_def Let_def)

text \<open>
  C1 (as the code has it).  A call of \<open>startNodeAt\<close> or \<open>finishNodeAt\<close> whose position
  argument is the legacy array is accepted only when the \<open>locations\<close> option is enabled
  and no location argument is passed.  Then, unless the process flag \<open>throwDeprecation\<close> is
  set, it returns what the call with the bare offset and the explicit location returns
  (\<open>startNodeAt\<close> with a bare offset always succeeds), and \<open>finishNodeAt\<close> leaves the
  caller's node as that call leaves it; under \<open>throwDeprecation\<close> it throws the
  deprecation message.  In every other case the array call throws the "expected to be a
  number" error.  A call of \<open>finishNodeAt\<close> that throws one of the two has assigned the
  type and nothing else.  On a console that is still empty, the accepted call writes the
  deprecation message, as a trace under \<open>traceDeprecation\<close>; a call that throws, and a
  call with a bare offset, write nothing.  What an accepted call writes when the message
  is on the console already is not part of the statement.
\<close>

theorem legacy_position_argument:
  "fst (startNodeAt pr p (Legacy n l) loc out) =
     (if locations (opts p) \<and> loc = None then
        (if throwDeprecation pr then Inl (Error startNodeAt_msg)
         else fst (startNodeAt pr p (Offset n) l out))
      else Inl (Error startNodeAt_array_msg))
   \<and> (\<exists>node. startNodeAt pr p (Offset n) l out = (Inr node, out))
   \<and> fst (finishNodeAt pr p nd ty (Legacy n l) loc out) =
     (if locations (opts p) \<and> loc = None then
        (if throwDeprecation pr then Inl (Error finishNodeAt_msg)
         else fst (finishNodeAt pr p nd ty (Offset n) l out))
      else Inl (Error finishNodeAt_array_msg))
   \<and> fst (snd (finishNodeAt pr p nd ty (Legacy n l) loc out)) =
     (if locations (opts p) \<and> loc = None \<and> \<not> throwDeprecation pr
      then fst (snd (finishNodeAt pr p nd ty (Offset n) l out))
      else nd\<lparr>node_type := Some ty\<rparr>)
   \<and> snd (snd (finishNodeAt pr p nd ty (Offset n) l out)) = out
   \<and> snd (startNodeAt pr p (Legacy n l) loc []) =
     (if locations (opts p) \<and> loc = None \<and> \<not> throwDeprecation pr
      then [if traceDeprecation pr then ConsoleTrace startNodeAt_msg
            else ConsoleError startNodeAt_msg]
      else [])
   \<and> snd (snd (finishNodeAt pr p nd ty (Legacy n l) loc [])) =
     (if locations (opts p) \<and> loc = None \<and> \<not> throwDeprecation pr
      then [if traceDeprecation pr then ConsoleTrace finishNodeAt_msg
            else ConsoleError finishNodeAt_msg]
      else [])"
  by (auto simp add: startNodeAt_def finishNodeAt_def flatten_pos_def deprecate_def Let_def
      split: sum.splits)

text \<open>
  The claim as stated fails where the \<open>locations\<close> option is disabled: under the normal
  process configuration the array call \<open>startNodeAt([3, loc])\<close> throws.
\<close>

theorem legacy_position_argument_counterexample:
  "fst (startNodeAt \<lparr>throwDeprecation = False, traceDeprecation = False\<rparr>
         \<lparr>opts = \<lparr>locations = False, ranges = True, directSourceFile = None\<rparr>,
           pos_start = 0, startLoc = (1, 0), lastTokEnd = 0, lastTokEndLoc = (1, 0)\<rparr>
         (Legacy 3 (Some (1, 3))) None [])
   = Inl (Error startNodeAt_array_msg)"
  by (simp add: startNodeAt_def flatten_pos_def Let_def)

text \<open>
  The guard \<open>if (!warned)\<close> is meant to hold the message back after the first warning,
  but \<open>warned\<close> is declared \<open>false\<close> inside the call, so the guard never does: two
  accepted calls in a row leave two lines on the console.
\<close>

lemma startNodeAt_warns_at_every_call:
  "snd (startNodeAt \<lparr>throwDeprecation = False, traceDeprecation = False\<rparr>
         \<lparr>opts = \<lparr>locations = True, ranges = False, directSourceFile = None\<rparr>,
           pos_start = 0, startLoc = (1, 0), lastTokEnd = 0, lastTokEndLoc = (1, 0)\<rparr>
         (Legacy 5 None) None
         (snd (startNodeAt \<lparr>throwDeprecation = False, traceDeprecation = False\<rparr>
            \<lparr>opts = \<lparr>locations = True, ranges = False, directSourceFile = None\<rparr>,
              pos_start = 0, startLoc = (1, 0), lastTokEnd = 0, lastTokEndLoc = (1, 0)\<rparr>
            (Legacy 3 None) None [])))
   = [ConsoleError startNodeAt_msg, ConsoleError startNodeAt_msg]"
  by (simp add: startNodeAt_def flatten_pos_def deprecate_def Let_def)

section \<open>Walks and the dispatch tree\<close>

lemma run_steps_unfold:
  assumes "unfold_steps u steps = Some ds"
    and "\<And>a v ov d. u v ov = Some d \<Longrightarrow> c a v ov = Some (G d a)"
  shows "run_steps c a steps = Some (seq_kids G ds a)"
  using assms(1)
proof (induction steps arbitrary: a ds)
  case Nil
  then show ?case by simp
next
  case (Cons s steps)
  show ?case
  proof (cases s)
    case Raise
    with Cons.prems show ?thesis by simp
  next
    case (Call v ov)
    with Cons.prems obtain d ds' where d: "u v ov = Some d"
      and ds': "unfold_steps u steps = Some ds'" and ds: "ds = d # ds'"
      by (auto split: option.splits)
    have c: "c a v ov = Some (G d a)" by (rule assms(2)[OF d])
    show ?thesis
    proof (cases "G d a")
      case (Pair a' x)
      then show ?thesis
        using Call c ds Cons.IH[OF ds'] by (cases x) simp_all
    qed
  qed
qed

lemma unfold_Suc:
  assumes "unfold (Suc n) reg v ov = Some d"
  obtains ty entry kids where "ntype v = Some ty"
    and "reg (effective_type ov ty) = Some entry"
    and "unfold_steps (unfold n reg) (entry v) = Some kids"
    and "d = DT v (effective_type ov ty) kids"
  using assms by (auto simp: Let_def split: option.splits)

lemma unfold_steps_member:
  "unfold_steps u steps = Some ds \<Longrightarrow> d \<in> set ds \<Longrightarrow> \<exists>v ov. u v ov = Some d"
proof (induction steps arbitrary: ds)
  case Nil
  then show ?case by simp
next
  case (Cons s steps)
  show ?case
  proof (cases s)
    case Raise
    with Cons.prems show ?thesis by simp
  next
    case (Call v ov)
    with Cons.prems obtain d0 ds' where "u v ov = Some d0"
      "unfold_steps u steps = Some ds'" "ds = d0 # ds'"
      by (auto split: option.splits)
    with Cons.IH[of ds'] Cons.prems(2) show ?thesis by auto
  qed
qed

lemma unfold_label: "unfold n reg v ov = Some d \<Longrightarrow> dlabel d = step_label (Call v ov)"
proof (cases n)
  case 0
  assume "unfold n reg v ov = Some d"
  with 0 show ?thesis by simp
next
  case (Suc m)
  assume "unfold n reg v ov = Some d"
  with Suc have "unfold (Suc m) reg v ov = Some d" by simp
  then show ?thesis by (rule unfold_Suc) simp
qed

lemma unfold_steps_call:
  "unfold_steps u steps = Some ds \<Longrightarrow> d \<in> set ds \<Longrightarrow>
     \<exists>v ov. Call v ov \<in> set steps \<and> u v ov = Some d"
proof (induction steps arbitrary: ds)
  case Nil
  then show ?case by simp
next
  case (Cons s steps)
  show ?case
  proof (cases s)
    case Raise
    with Cons.prems show ?thesis by simp
  next
    case (Call v ov)
    with Cons.prems obtain d0 ds' where "u v ov = Some d0"
      "unfold_steps u steps = Some ds'" "ds = d0 # ds'"
      by (auto split: option.splits)
    with Cons.IH[of ds'] Cons.prems(2) Call show ?thesis by auto
  qed
qed

lemma unfold_steps_mono:
  assumes "\<And>v ov d. u v ov = Some d \<Longrightarrow> u' v ov = Some d"
  shows "unfold_steps u steps = Some ds \<Longrightarrow> unfold_steps u' steps = Some ds"
proof (induction steps arbitrary: ds)
  case Nil
  then show ?case by simp
next
  case (Cons s steps)
  show ?case
  proof (cases s)
    case Raise
    with Cons.prems show ?thesis by simp
  next
    case (Call v ov)
    with Cons.prems obtain d0 ds' where "u v ov = Some d0"
      "unfold_steps u steps = Some ds'" "ds = d0 # ds'"
      by (auto split: option.splits)
    with Cons.IH[of ds'] assms[of v ov d0] Call show ?thesis by simp
  qed
qed

lemma unfold_mono: "unfold n reg v ov = Some d \<Longrightarrow> n \<le> m \<Longrightarrow> unfold m reg v ov = Some d"
proof (induction n arbitrary: m v ov d)
  case 0
  then show ?case by simp
next
  case (Suc n)
  from Suc.prems(2) obtain m' where m: "m = Suc m'" and le: "n \<le> m'" by (cases m) auto
  from Suc.prems(1) obtain ty entry kids where ty: "ntype v = Some ty"
    and e: "reg (effective_type ov ty) = Some entry"
    and k: "unfold_steps (unfold n reg) (entry v) = Some kids"
    and d: "d = DT v (effective_type ov ty) kids"
    by (rule unfold_Suc)
  have "unfold_steps (unfold m' reg) (entry v) = Some kids"
    by (rule unfold_steps_mono[OF _ k]) (rule Suc.IH[OF _ le])
  then show ?case using m ty e d by (simp add: Let_def)
qed


lemma ex_program_unfold: "unfold 12 (default_base None) ex_program None = Some ex_program_dtree"
  by code_simp

subsection \<open>simple\<close>

lemma callbacks_Nil: "callbacks vis st [] = []"
  by (simp add: callbacks_def)

lemma callbacks_append: "callbacks vis st (xs @ ys) = callbacks vis st xs @ callbacks vis st ys"
  by (simp add: callbacks_def)

lemma callbacks_single:
  "callbacks vis st [(v, t)] = (case vis t of None \<Rightarrow> [] | Some f \<Rightarrow> [(f, v, st)])"
  by (simp add: callbacks_def)

lemma seq_kids_simple:
  "seq_kids (\<lambda>d tr. (tr @ callbacks vis st (postorder d), None)) ds tr
     = (tr @ callbacks vis st (concat (map postorder ds)), None)"
  by (induction ds arbitrary: tr) (simp_all add: callbacks_append callbacks_Nil)

lemma simple_c_unfold:
  "unfold n reg v ov = Some d \<Longrightarrow>
   simple_c n vis reg st tr v ov = Some (tr @ callbacks vis st (postorder d), None)"
proof (induction n arbitrary: v ov d tr)
  case 0
  then show ?case by simp
next
  case (Suc n)
  from Suc.prems obtain ty entry kids where ty: "ntype v = Some ty"
    and e: "reg (effective_type ov ty) = Some entry"
    and k: "unfold_steps (unfold n reg) (entry v) = Some kids"
    and d: "d = DT v (effective_type ov ty) kids"
    by (rule unfold_Suc)
  have "run_steps (simple_c n vis reg st) tr (entry v)
      = Some (seq_kids (\<lambda>d tr. (tr @ callbacks vis st (postorder d), None)) kids tr)"
    by (rule run_steps_unfold[OF k]) (rule Suc.IH)
  then show ?case
    using ty e d
    by (simp add: Let_def seq_kids_simple callbacks_append callbacks_single
        split: option.splits)
qed

text \<open>
  C3.  On a tree that the registry unfolds (every dispatched node has an entry and the
  children it needs), \<open>simple\<close> returns normally, and the visitor calls it makes are, in
  order, those of the dispatches in post-order: one call for each dispatch of a node
  under an effective type that has a visitor, made after all the calls for the
  dispatches beneath it.
\<close>

theorem simple_visits_postorder:
  assumes "unfold n (default_base b) node override = Some d"
  shows "simple n node visitors b st override
           = Some (callbacks visitors st (postorder d), None)"
  using simple_c_unfold[OF assms, of visitors st "[]"] by (simp add: simple_def)

theorem simple_visits_postorder_witness:
  "simple 12 ex_program
     (\<lambda>t. if t = ''Expression'' then Some ''onExpression''
           else if t = ''CallExpression'' then Some ''onCall''
           else if t = ''Statement'' then Some ''onStatement'' else None)
     None () None
   = Some ([(''onExpression'', ex_f, ()),
            (''onExpression'', ex_g, ()),
            (''onExpression'', ex_x, ()),
            (''onCall'', ex_inner, ()),
            (''onExpression'', ex_inner, ()),
            (''onCall'', ex_outer, ()),
            (''onExpression'', ex_outer, ()),
            (''onStatement'', ex_stmt, ())], None)"
proof -
  have "callbacks (\<lambda>t. if t = ''Expression'' then Some ''onExpression''
           else if t = ''CallExpression'' then Some ''onCall''
           else if t = ''Statement'' then Some ''onStatement'' else None) ()
          (postorder ex_program_dtree)
        = [(''onExpression'', ex_f, ()),
            (''onExpression'', ex_g, ()),
            (''onExpression'', ex_x, ()),
            (''onCall'', ex_inner, ()),
            (''onExpression'', ex_inner, ()),
            (''onCall'', ex_outer, ()),
            (''onExpression'', ex_outer, ()),
            (''onStatement'', ex_stmt, ())]"
    by (simp add: callbacks_def ex_program_dtree_def ex_leaf_def)
  then show ?thesis
    by (simp add: simple_visits_postorder[OF ex_program_unfold])
qed

subsection \<open>ancestor\<close>

lemma run_steps_unfold_inv:
  assumes "unfold_steps u steps = Some ds"
    and "I a"
    and "\<And>a v ov d. I a \<Longrightarrow> u v ov = Some d \<Longrightarrow> c a v ov = Some (G d a)"
    and "\<And>a d. I a \<Longrightarrow> I (fst (G d a))"
  shows "run_steps c a steps = Some (seq_kids G ds a)"
  using assms(1,2)
proof (induction steps arbitrary: a ds)
  case Nil
  then show ?case by simp
next
  case (Cons s steps)
  show ?case
  proof (cases s)
    case Raise
    with Cons.prems show ?thesis by simp
  next
    case (Call v ov)
    with Cons.prems obtain d ds' where d: "u v ov = Some d"
      and ds': "unfold_steps u steps = Some ds'" and ds: "ds = d # ds'"
      by (auto split: option.splits)
    have c: "c a v ov = Some (G d a)" by (rule assms(3)[OF Cons.prems(2) d])
    show ?thesis
    proof (cases "G d a")
      case (Pair a' x)
      have "I a'" using assms(4)[OF Cons.prems(2), of d] Pair by simp
      then show ?thesis
        using Call c ds Pair Cons.IH[OF ds'] by (cases x) simp_all
    qed
  qed
qed

lemma remdups_adj_snoc:
  "remdups_adj (p @ [v]) = (if p = [] \<or> v \<noteq> last p then remdups_adj p @ [v] else remdups_adj p)"
proof (cases p rule: rev_cases)
  case Nil
  then show ?thesis by simp
next
  case (snoc q x)
  then show ?thesis by (auto simp: remdups_adj_append_two)
qed

lemma ancestor_calls_append:
  "ancestor_calls vis st (xs @ ys) = ancestor_calls vis st xs @ ancestor_calls vis st ys"
  by (simp add: ancestor_calls_def)

lemma ancestor_calls_Nil: "ancestor_calls vis st [] = []"
  by (simp add: ancestor_calls_def)

lemma ancestor_calls_single:
  "ancestor_calls vis st [(p, v, t)] =
     (case vis t of None \<Rightarrow> []
      | Some f \<Rightarrow> [(f, v, if truthy st then st else Arr (remdups_adj p), remdups_adj p)])"
  by (simp add: ancestor_calls_def)

lemma seq_kids_ancestor:
  "seq_kids (\<lambda>d a. ((fst a, snd a @ ancestor_calls vis st (post_paths q d)), None)) ds (anc, tr)
     = ((anc, tr @ ancestor_calls vis st (concat (map (post_paths q) ds))), None)"
  by (induction ds arbitrary: tr) (simp_all add: ancestor_calls_append ancestor_calls_Nil)

lemma ancestor_c_unfold:
  "unfold n reg v ov = Some d \<Longrightarrow>
   ancestor_c n vis reg st (remdups_adj p, tr) v ov
     = Some ((remdups_adj p, tr @ ancestor_calls vis st (post_paths p d)), None)"
proof (induction n arbitrary: v ov d tr p)
  case 0
  then show ?case by simp
next
  case (Suc n)
  from Suc.prems obtain ty entry kids where ty: "ntype v = Some ty"
    and e: "reg (effective_type ov ty) = Some entry"
    and k: "unfold_steps (unfold n reg) (entry v) = Some kids"
    and d: "d = DT v (effective_type ov ty) kids"
    by (rule unfold_Suc)
  let ?q = "p @ [v]"
  let ?G = "\<lambda>d a. ((fst a, snd a @ ancestor_calls vis st (post_paths ?q d)), None)"
  have run: "run_steps (ancestor_c n vis reg st) (remdups_adj ?q, tr) (entry v)
      = Some (seq_kids ?G kids (remdups_adj ?q, tr))"
  proof (rule run_steps_unfold_inv[OF k, where I = "\<lambda>a. fst a = remdups_adj ?q"])
    show "fst (remdups_adj ?q, tr) = remdups_adj ?q" by simp
  next
    fix a :: "jsval list \<times> 'a ancestor_visit list" and v' ov' d'
    assume a: "fst a = remdups_adj ?q" and u: "unfold n reg v' ov' = Some d'"
    show "ancestor_c n vis reg st a v' ov' = Some (?G d' a)"
      using Suc.IH[OF u, of ?q "snd a"] a by (cases a) simp
  next
    fix a :: "jsval list \<times> 'a ancestor_visit list" and d'
    assume "fst a = remdups_adj ?q"
    then show "fst (fst (?G d' a)) = remdups_adj ?q" by simp
  qed
  have new: "(if remdups_adj p = [] \<or> v \<noteq> last (remdups_adj p) then remdups_adj p @ [v]
              else remdups_adj p) = remdups_adj ?q"
    by (simp add: remdups_adj_snoc)
  show ?case
    using ty e d run
    apply (simp add: Let_def new seq_kids_ancestor ancestor_calls_append ancestor_calls_single
        del: remdups_adj_Nil_iff last_remdups_adj split: option.splits)
    by (auto simp: remdups_adj_snoc)
qed

lemma parts_weight: "x \<in> set (parts v) \<Longrightarrow> weight x < weight v"
proof (induction v arbitrary: x rule: parts.induct)
  case (1 xs)
  then obtain y where y: "y \<in> set xs" and x: "x = y \<or> x \<in> set (parts y)" by auto
  have "weight y \<le> sum_list (map weight xs)"
    using y by (intro member_le_sum_list) simp_all
  moreover have "weight x \<le> weight y" using x "1.IH"[OF y] by (auto simp: less_imp_le)
  ultimately show ?case by simp
next
  case (2 ty s e fs)
  then obtain kv where kv: "kv \<in> set fs" and x: "x = snd kv \<or> x \<in> set (parts (snd kv))"
    by auto
  have "weight (snd kv) \<le> sum_list (map (\<lambda>kv. weight (snd kv)) fs)"
    using kv by (intro member_le_sum_list) simp_all
  moreover have "weight x \<le> weight (snd kv)" using x "2.IH"[OF kv] by (auto simp: less_imp_le)
  ultimately show ?case by simp
qed simp_all

lemma successively_both:
  "successively P xs \<Longrightarrow> successively Q xs \<Longrightarrow> successively (\<lambda>a b. P a b \<and> Q a b) xs"
  by (induction xs rule: induct_list012) auto

lemma chain_distinct:
  assumes "chain p"
  shows "distinct (remdups_adj p)"
proof -
  have 1: "successively (\<lambda>a b. b = a \<or> b \<in> set (parts a)) (remdups_adj p)"
    using assms unfolding chain_def by (rule successively_remdups_adjI)
  have 2: "successively (\<noteq>) (remdups_adj p)"
    using distinct_adj_remdups_adj[of p] by (simp add: distinct_adj_def)
  have "successively (\<lambda>a b. weight b < weight a) (remdups_adj p)"
    by (rule successively_mono[OF successively_both[OF 1 2]]) (auto dest: parts_weight)
  then have "sorted_wrt (\<lambda>a b. weight b < weight a) (remdups_adj p)"
    by (subst (asm) successively_conv_sorted_wrt) (auto simp: transp_def)
  then have "sorted_wrt (\<noteq>) (remdups_adj p)"
    by (rule sorted_wrt_mono_rel[rotated]) auto
  then show ?thesis by (simp add: distinct_conv_nth sorted_wrt_iff_nth_less) (metis nat_neq_iff)
qed

lemma parts_trans: "x \<in> set (parts y) \<Longrightarrow> y \<in> set (parts z) \<Longrightarrow> x \<in> set (parts z)"
proof (induction z arbitrary: y rule: parts.induct)
  case (1 xs)
  then obtain w where w: "w \<in> set xs" and y: "y = w \<or> y \<in> set (parts w)" by auto
  from y show ?case
  proof
    assume "y = w"
    with 1(2) w show ?thesis by auto
  next
    assume "y \<in> set (parts w)"
    from "1.IH"[OF w 1(2) this] w show ?thesis by auto
  qed
next
  case (2 ty s e fs)
  then obtain kv where w: "kv \<in> set fs" and y: "y = snd kv \<or> y \<in> set (parts (snd kv))" by auto
  from y show ?case
  proof
    assume "y = snd kv"
    with 2(2) w show ?thesis by auto
  next
    assume "y \<in> set (parts (snd kv))"
    from "2.IH"[OF w 2(2) this] w show ?thesis by auto
  qed
qed simp_all

lemma field_parts: "field v k \<noteq> Undefined \<Longrightarrow> field v k \<in> set (parts v)"
proof (cases v)
  case (Node ty s e fs)
  assume "field v k \<noteq> Undefined"
  with Node obtain x where "map_of fs k = Some x" "field v k = x"
    by (cases "map_of fs k") auto
  then have "(k, x) \<in> set fs" by (auto dest: map_of_SomeD)
  then show ?thesis using Node \<open>field v k = x\<close> by force
qed auto

lemma field_node_parts: "is_node (field v k) \<Longrightarrow> field v k \<in> set (parts v)"
  by (rule field_parts) auto

lemma for_of_field:
  assumes "Call x ov \<in> set (for_of (field v k) body)"
  obtains y where "y \<in> set (parts v) \<or> \<not> is_node y" and "Call x ov \<in> set (body y)"
proof (cases "field v k")
  case (Arr xs)
  with assms obtain y where y: "y \<in> set xs" "Call x ov \<in> set (body y)" by auto
  have "field v k \<in> set (parts v)" by (rule field_parts) (simp add: Arr)
  then have a: "Arr xs \<in> set (parts v)" by (simp add: Arr)
  have "y \<in> set (parts (Arr xs))" using y by auto
  then have "y \<in> set (parts v)" using a by (rule parts_trans)
  with y that show ?thesis by blast
next
  case (Str s)
  with assms obtain ch where y: "Call x ov \<in> set (body (Str [ch]))" by auto
  with that[of "Str [ch]"] show ?thesis by simp
qed (use assms in auto)

lemma field_field_parts:
  assumes "y \<in> set (parts v) \<or> \<not> is_node y" and "is_node y" and "is_node (field y k)"
  shows "field y k \<in> set (parts v)"
  using assms field_node_parts[of y k] by (auto intro: parts_trans)

lemma base_hands_on_parts: "\<forall>e \<in> snd ` set base_entries. hands_on_parts e"
  unfolding base_entries_def hands_on_parts_def
  by (auto simp: skipThrough_def ignore_def base_Program_def base_BlockStatement_def
      base_Statement_def base_ExpressionStatement_def base_IfStatement_def
      base_LabeledStatement_def base_WithStatement_def base_SwitchStatement_def
      base_SwitchCase_def base_ReturnStatement_def base_ThrowStatement_def
      base_TryStatement_def base_CatchClause_def base_WhileStatement_def
      base_ForStatement_def base_ForInStatement_def base_ForInit_def
      base_FunctionDeclaration_def base_VariableDeclaration_def base_VariableDeclarator_def
      base_Function_def base_ScopeBody_def base_ScopeExpression_def base_Pattern_def
      base_RestElement_def base_ArrayPattern_def base_ObjectPattern_def
      base_ArrayExpression_def base_ObjectExpression_def base_TemplateLiteral_def
      base_SequenceExpression_def base_UnaryExpression_def base_BinaryExpression_def
      base_AssignmentExpression_def base_ConditionalExpression_def base_NewExpression_def
      base_MemberExpression_def base_ExportDefaultDeclaration_def
      base_ExportNamedDeclaration_def base_ExportAllDeclaration_def
      base_ImportDeclaration_def base_TaggedTemplateExpression_def base_ClassDeclaration_def
      base_Class_def base_ClassBody_def base_MethodDefinition_def
      intro: field_node_parts field_field_parts elim!: for_of_field
      split: option.splits if_splits)


lemma unfold_structural:
  assumes "\<forall>t e. reg t = Some e \<longrightarrow> hands_on_parts e"
  shows "unfold n reg v ov = Some d \<Longrightarrow> structural d"
proof (induction n arbitrary: v ov d)
  case 0
  then show ?case by simp
next
  case (Suc n)
  from Suc.prems obtain ty entry kids where ty: "ntype v = Some ty"
    and e: "reg (effective_type ov ty) = Some entry"
    and k: "unfold_steps (unfold n reg) (entry v) = Some kids"
    and d: "d = DT v (effective_type ov ty) kids"
    by (rule unfold_Suc)
  have h: "hands_on_parts entry" using assms e by blast
  have "(dnode kid = v \<or> dnode kid \<in> set (parts v)) \<and> structural kid"
    if kid: "kid \<in> set kids" for kid
  proof -
    from unfold_steps_call[OF k kid] obtain x ov' where c: "Call x ov' \<in> set (entry v)"
      and u: "unfold n reg x ov' = Some kid" by blast
    have l: "dlabel kid = step_label (Call x ov')" by (rule unfold_label[OF u])
    then have dn: "dnode kid = x" by (cases kid) auto
    have "is_node x" using u by (cases n; cases x) (auto simp: Let_def)
    then have "x = v \<or> x \<in> set (parts v)" using h c unfolding hands_on_parts_def by blast
    then show ?thesis using dn Suc.IH[OF u] by simp
  qed
  then show ?case using d by simp
qed

lemma base_registry_hands_on_parts: "default_base None t = Some e \<Longrightarrow> hands_on_parts e"
proof -
  assume "default_base None t = Some e"
  then have "(t, e) \<in> set base_entries"
    by (auto simp: default_base_def base_def dest: map_of_SomeD)
  then show ?thesis using base_hands_on_parts by force
qed

lemma post_paths_last:
  "(p, v, t) \<in> set (post_paths p0 d) \<Longrightarrow> p \<noteq> [] \<and> last p = v"
proof (induction d arbitrary: p0)
  case (DT w u kids)
  then show ?case by auto
qed

lemma post_paths_chain:
  "structural d \<Longrightarrow> chain (p0 @ [dnode d]) \<Longrightarrow> x \<in> set (post_paths p0 d) \<Longrightarrow> chain (fst x)"
proof (induction d arbitrary: p0)
  case (DT w u kids)
  show ?case
  proof (cases "x = (p0 @ [w], w, u)")
    case True
    with DT.prems show ?thesis by simp
  next
    case False
    with DT.prems(3) obtain k where k: "k \<in> set kids" and x: "x \<in> set (post_paths (p0 @ [w]) k)"
      by auto
    have "chain ((p0 @ [w]) @ [dnode k])"
      using DT.prems(1,2) k by (auto simp: chain_def successively_append_iff)
    moreover have "structural k" using DT.prems(1) k by simp
    ultimately show ?thesis using DT.IH[OF k _ _ x] by blast
  qed
qed

lemma in_ancestor_calls:
  assumes "(f, v, s, anc) \<in> set (ancestor_calls vis st xs)"
  obtains p t where "(p, v, t) \<in> set xs" and "vis t = Some f"
    and "anc = remdups_adj p" and "s = (if truthy st then st else Arr anc)"
  using assms by (auto simp: ancestor_calls_def split: option.splits)

lemma held_is_node: "x \<in> set (held a) \<Longrightarrow> is_node x"
  by (induction a rule: held.induct) auto

lemma children_is_node: "x \<in> set (children v) \<Longrightarrow> is_node x"
  by (cases v) (auto dest: held_is_node)

lemma held_depths: "x \<in> set (held a) \<Longrightarrow> set (node_depths k x) \<subseteq> set (node_depths k a)"
proof (induction a rule: held.induct)
  case (1 ty s e fs)
  then show ?case by simp
next
  case (2 xs)
  then obtain y where y: "y \<in> set xs" and x: "x \<in> set (held y)" by auto
  from "2.IH"[OF y x] y show ?case by auto
qed simp_all

lemma children_depths:
  "x \<in> set (children v) \<Longrightarrow> set (node_depths (Suc k) x) \<subseteq> set (node_depths k v)"
proof (cases v)
  case (Node ty s e fs)
  assume "x \<in> set (children v)"
  with Node obtain kv where kv: "kv \<in> set fs" and x: "x \<in> set (held (snd kv))" by auto
  from held_depths[OF x, of "Suc k"] kv Node show ?thesis by auto
qed auto

lemma node_depths_self: "is_node v \<Longrightarrow> (v, Suc k) \<in> set (node_depths k v)"
  by (cases v) auto

lemma lineage_depth:
  "lineage p \<Longrightarrow> p \<noteq> [] \<Longrightarrow> is_node (hd p) \<Longrightarrow>
     (last p, k + length p) \<in> set (node_depths k (hd p))"
proof (induction p arbitrary: k rule: induct_list012)
  case 1
  then show ?case by simp
next
  case (2 x)
  then show ?case by (simp add: node_depths_self)
next
  case (3 a b p)
  from 3(3) have ab: "b \<in> set (children a)" and l: "lineage (b # p)"
    by (simp_all add: lineage_def)
  have "is_node (hd (b # p))" using ab by (simp add: children_is_node)
  from 3(2)[OF l _ this, of "Suc k"]
  have "(last (b # p), Suc k + length (b # p)) \<in> set (node_depths (Suc k) b)" by simp
  then have "(last (b # p), Suc k + length (b # p)) \<in> set (node_depths k a)"
    using children_depths[OF ab, of k] by blast
  then show ?case by simp
qed

lemma field_node_children: "is_node (field v k) \<Longrightarrow> field v k \<in> set (children v)"
proof (cases v)
  case (Node ty s e fs)
  assume n: "is_node (field v k)"
  with Node obtain x where m: "map_of fs k = Some x" and f: "field v k = x"
    by (cases "map_of fs k") auto
  then have "(k, x) \<in> set fs" by (auto dest: map_of_SomeD)
  moreover have "x \<in> set (held x)" using n f by (cases x) auto
  ultimately show ?thesis using Node f by force
qed auto

lemma for_of_field_children:
  assumes "Call x ov \<in> set (for_of (field v k) body)"
  obtains y where "y \<in> set (children v) \<or> \<not> is_node y" and "Call x ov \<in> set (body y)"
proof (cases "field v k")
  case (Arr xs)
  with assms obtain y where y: "y \<in> set xs" "Call x ov \<in> set (body y)" by auto
  have "y \<in> set (children v)" if n: "is_node y"
  proof (cases v)
    case (Node ty s e fs)
    with Arr obtain "map_of fs k = Some (Arr xs)" by (cases "map_of fs k") auto
    then have "(k, Arr xs) \<in> set fs" by (auto dest: map_of_SomeD)
    moreover have "y \<in> set (held y)" using n by (cases y) auto
    then have "y \<in> set (held (Arr xs))" using y(1) by auto
    ultimately show ?thesis using Node by force
  qed (use Arr in auto)
  with y that show ?thesis by blast
next
  case (Str s)
  with assms obtain ch where y: "Call x ov \<in> set (body (Str [ch]))" by auto
  with that[of "Str [ch]"] show ?thesis by simp
qed (use assms in auto)

lemma base_hands_on_children:
  "\<forall>x \<in> set base_entries. fst x \<noteq> ''ObjectPattern'' \<longrightarrow> hands_on_children (snd x)"
  unfolding base_entries_def hands_on_children_def
  by (auto simp: skipThrough_def ignore_def base_Program_def base_BlockStatement_def
      base_Statement_def base_ExpressionStatement_def base_IfStatement_def
      base_LabeledStatement_def base_WithStatement_def base_SwitchStatement_def
      base_SwitchCase_def base_ReturnStatement_def base_ThrowStatement_def
      base_TryStatement_def base_CatchClause_def base_WhileStatement_def
      base_ForStatement_def base_ForInStatement_def base_ForInit_def
      base_FunctionDeclaration_def base_VariableDeclaration_def base_VariableDeclarator_def
      base_Function_def base_ScopeBody_def base_ScopeExpression_def base_Pattern_def
      base_RestElement_def base_ArrayPattern_def
      base_ArrayExpression_def base_ObjectExpression_def base_TemplateLiteral_def
      base_SequenceExpression_def base_UnaryExpression_def base_BinaryExpression_def
      base_AssignmentExpression_def base_ConditionalExpression_def base_NewExpression_def
      base_MemberExpression_def base_ExportDefaultDeclaration_def
      base_ExportNamedDeclaration_def base_ExportAllDeclaration_def
      base_ImportDeclaration_def base_TaggedTemplateExpression_def base_ClassDeclaration_def
      base_Class_def base_ClassBody_def base_MethodDefinition_def
      intro: field_node_children elim!: for_of_field_children
      split: option.splits if_splits)

lemma base_overrides:
  "\<forall>x \<in> set base_entries. \<forall>v y ov. Call y ov \<in> set (snd x v) \<longrightarrow> ov \<noteq> Some ''ObjectPattern''"
  unfolding base_entries_def
  by (auto simp: skipThrough_def ignore_def base_Program_def base_BlockStatement_def
      base_Statement_def base_ExpressionStatement_def base_IfStatement_def
      base_LabeledStatement_def base_WithStatement_def base_SwitchStatement_def
      base_SwitchCase_def base_ReturnStatement_def base_ThrowStatement_def
      base_TryStatement_def base_CatchClause_def base_WhileStatement_def
      base_ForStatement_def base_ForInStatement_def base_ForInit_def
      base_FunctionDeclaration_def base_VariableDeclaration_def base_VariableDeclarator_def
      base_Function_def base_ScopeBody_def base_ScopeExpression_def base_Pattern_def
      base_RestElement_def base_ArrayPattern_def base_ObjectPattern_def
      base_ArrayExpression_def base_ObjectExpression_def base_TemplateLiteral_def
      base_SequenceExpression_def base_UnaryExpression_def base_BinaryExpression_def
      base_AssignmentExpression_def base_ConditionalExpression_def base_NewExpression_def
      base_MemberExpression_def base_ExportDefaultDeclaration_def
      base_ExportNamedDeclaration_def base_ExportAllDeclaration_def
      base_ImportDeclaration_def base_TaggedTemplateExpression_def base_ClassDeclaration_def
      base_Class_def base_ClassBody_def base_MethodDefinition_def
      elim!: for_of_field_children
      split: option.splits if_splits)

lemma effective_type_ObjectPattern:
  "ov \<noteq> Some ''ObjectPattern'' \<Longrightarrow> effective_type ov ty = ''ObjectPattern'' \<Longrightarrow>
     ty = ''ObjectPattern''"
  by (auto simp: effective_type_def split: option.splits if_splits)

lemma unfold_child_steps:
  "unfold n base v ov = Some d \<Longrightarrow> ov \<noteq> Some ''ObjectPattern'' \<Longrightarrow> steps_in child_step d"
proof (induction n arbitrary: v ov d)
  case 0
  then show ?case by simp
next
  case (Suc n)
  from Suc.prems(1) obtain ty entry kids where ty: "ntype v = Some ty"
    and e: "base (effective_type ov ty) = Some entry"
    and k: "unfold_steps (unfold n base) (entry v) = Some kids"
    and d: "d = DT v (effective_type ov ty) kids"
    by (rule unfold_Suc)
  have mem: "(effective_type ov ty, entry) \<in> set base_entries"
    using e by (auto simp: base_def dest: map_of_SomeD)
  have "child_step v (dnode kid) \<and> steps_in child_step kid" if kid: "kid \<in> set kids" for kid
  proof -
    from unfold_steps_call[OF k kid] obtain x ov' where c: "Call x ov' \<in> set (entry v)"
      and u: "unfold n base x ov' = Some kid" by blast
    have l: "dlabel kid = step_label (Call x ov')" by (rule unfold_label[OF u])
    then have dn: "dnode kid = x" by (cases kid) auto
    have nx: "is_node x" using u by (cases n; cases x) (auto simp: Let_def)
    have ov': "ov' \<noteq> Some ''ObjectPattern''" using base_overrides mem c by force
    have "child_step v x"
    proof (cases "ty = ''ObjectPattern''")
      case True
      then show ?thesis using ty by (simp add: child_step_def)
    next
      case False
      then have "effective_type ov ty \<noteq> ''ObjectPattern''"
        using effective_type_ObjectPattern[OF Suc.prems(2)] by blast
      then have "hands_on_children entry" using base_hands_on_children mem by force
      then have "x = v \<or> x \<in> set (children v)"
        using c nx unfolding hands_on_children_def by blast
      then show ?thesis by (auto simp: child_step_def)
    qed
    then show ?thesis using dn Suc.IH[OF u ov'] by simp
  qed
  then show ?case using d by simp
qed

lemma post_paths_steps:
  "steps_in R d \<Longrightarrow> successively R (p0 @ [dnode d]) \<Longrightarrow> x \<in> set (post_paths p0 d) \<Longrightarrow>
     successively R (fst x)"
proof (induction d arbitrary: p0)
  case (DT w u kids)
  show ?case
  proof (cases "x = (p0 @ [w], w, u)")
    case True
    with DT.prems show ?thesis by simp
  next
    case False
    with DT.prems(3) obtain k where k: "k \<in> set kids" and x: "x \<in> set (post_paths (p0 @ [w]) k)"
      by auto
    have "successively R ((p0 @ [w]) @ [dnode k])"
      using DT.prems(1,2) k by (auto simp: successively_append_iff)
    moreover have "steps_in R k" using DT.prems(1) k by simp
    ultimately show ?thesis using DT.IH[OF k _ _ x] by blast
  qed
qed

lemma post_paths_hd:
  "(p, v, t) \<in> set (post_paths p0 d) \<Longrightarrow> \<exists>q. p = p0 @ dnode d # q"
proof (induction d arbitrary: p0)
  case (DT w u kids)
  show ?case
  proof (cases "(p, v, t) = (p0 @ [w], w, u)")
    case True
    then show ?thesis by simp
  next
    case False
    with DT.prems obtain k where k: "k \<in> set kids"
      and x: "(p, v, t) \<in> set (post_paths (p0 @ [w]) k)" by auto
    from DT.IH[OF k x] show ?thesis by auto
  qed
qed

lemma successively_butlast:
  "successively P q \<Longrightarrow> \<forall>a \<in> set (butlast q). Q a \<Longrightarrow> successively (\<lambda>a b. P a b \<and> Q a) q"
  by (induction q rule: induct_list012) auto

lemma child_steps_lineage:
  assumes "successively child_step p"
    and "\<forall>a \<in> set (butlast (remdups_adj p)). ntype a \<noteq> Some ''ObjectPattern''"
  shows "lineage (remdups_adj p)"
proof -
  have 1: "successively child_step (remdups_adj p)"
    using assms(1) by (rule successively_remdups_adjI)
  have 2: "successively (\<noteq>) (remdups_adj p)"
    using distinct_adj_remdups_adj[of p] by (simp add: distinct_adj_def)
  have 3: "successively (\<lambda>a b. (child_step a b \<and> a \<noteq> b) \<and> ntype a \<noteq> Some ''ObjectPattern'')
             (remdups_adj p)"
    by (rule successively_butlast[OF successively_both[OF 1 2] assms(2)])
  show ?thesis unfolding lineage_def
    by (rule successively_mono[OF 3]) (auto simp: child_step_def)
qed

text \<open>
  C6 (as the code has it).  On a tree that the registry unfolds, with a registry whose
  entries hand on only the node itself or proper parts of it (as every entry of \<open>base\<close>
  does), an ancestor walk returns normally and makes one visitor call for each dispatch
  whose effective type has a visitor, in post-order.  At the call for a node, the
  sequence passed starts with the root and ends in that node, has no duplicates (also
  when the node is dispatched again under another type), and is the dispatch path with
  repeated dispatches of one node collapsed.  Whenever each node of the sequence is a
  child of the one before it, the length of the sequence is the depth of the node in the
  syntax tree (the root has depth 1); and under the default registry each node of the
  sequence is a child of the one before it unless an \<open>ObjectPattern\<close> is among those
  before the last: the entry of \<open>ObjectPattern\<close> hands on the values of the properties,
  not the property nodes.  The state argument is the state when that is truthy, and the
  sequence otherwise, in particular when no state was supplied.
\<close>

theorem ancestor_sequence:
  assumes "unfold n (default_base b) node None = Some d"
    and "\<forall>t e. default_base b t = Some e \<longrightarrow> hands_on_parts e"
  shows "ancestor n node visitors b st
           = Some (ancestor_calls visitors st (post_paths [] d), None)
     \<and> (\<forall>(f, v, s, anc) \<in> set (ancestor_calls visitors st (post_paths [] d)).
          hd anc = node \<and> last anc = v \<and> distinct anc
          \<and> s = (if truthy st then st else Arr anc)
          \<and> (\<exists>p t. (p, v, t) \<in> set (post_paths [] d) \<and> visitors t = Some f
                \<and> anc = remdups_adj p)
          \<and> (lineage anc \<longrightarrow> (v, length anc) \<in> set (node_depths 0 node))
          \<and> (b = None \<and> (\<forall>a \<in> set (butlast anc). ntype a \<noteq> Some ''ObjectPattern'')
                \<longrightarrow> lineage anc))"
proof (intro conjI ballI)
  show "ancestor n node visitors b st
           = Some (ancestor_calls visitors st (post_paths [] d), None)"
    using ancestor_c_unfold[OF assms(1), of visitors st "[]" "[]"] by (simp add: ancestor_def)
next
  fix x assume x: "x \<in> set (ancestor_calls visitors st (post_paths [] d))"
  obtain f v s anc where xe: "x = (f, v, s, anc)" by (cases x) auto
  from x xe obtain p t where p: "(p, v, t) \<in> set (post_paths [] d)" and t: "visitors t = Some f"
    and anc: "anc = remdups_adj p" and s: "s = (if truthy st then st else Arr anc)"
    by (auto elim: in_ancestor_calls)
  have l: "p \<noteq> [] \<and> last p = v" using post_paths_last[OF p] .
  have dn: "dnode d = node" using unfold_label[OF assms(1)] by (cases d) auto
  have nn: "is_node node" using assms(1) by (cases n; cases node) (auto simp: Let_def)
  from post_paths_hd[OF p] dn obtain q where q: "p = node # q" by auto
  have h: "hd anc = node" unfolding anc q by simp
  have "chain ([] @ [dnode d])" by (simp add: chain_def)
  have "structural d" by (rule unfold_structural[OF assms(2) assms(1)])
  then have "chain p" using post_paths_chain[OF _ \<open>chain ([] @ [dnode d])\<close> p] by simp
  then have dist: "distinct anc" unfolding anc by (rule chain_distinct)
  have ne: "anc \<noteq> []" using l anc by simp
  have la: "last anc = v" using l anc by simp
  have depth: "(v, length anc) \<in> set (node_depths 0 node)" if "lineage anc"
    using lineage_depth[OF that ne, of 0] h nn la by simp
  have lin: "lineage anc"
    if b: "b = None" and np: "\<forall>a \<in> set (butlast anc). ntype a \<noteq> Some ''ObjectPattern''"
  proof -
    have u: "unfold n base node None = Some d" using assms(1) b by (simp add: default_base_def)
    have "steps_in child_step d" by (rule unfold_child_steps[OF u]) simp
    moreover have "successively child_step ([] @ [dnode d])" by simp
    ultimately have "successively child_step (fst (p, v, t))" using p by (rule post_paths_steps)
    then show ?thesis unfolding anc using np[unfolded anc] by (intro child_steps_lineage) simp_all
  qed
  show "case x of (f, v, s, anc) \<Rightarrow>
          hd anc = node \<and> last anc = v \<and> distinct anc
          \<and> s = (if truthy st then st else Arr anc)
          \<and> (\<exists>p t. (p, v, t) \<in> set (post_paths [] d) \<and> visitors t = Some f
                \<and> anc = remdups_adj p)
          \<and> (lineage anc \<longrightarrow> (v, length anc) \<in> set (node_depths 0 node))
          \<and> (b = None \<and> (\<forall>a \<in> set (butlast anc). ntype a \<noteq> Some ''ObjectPattern'')
                \<longrightarrow> lineage anc)"
    unfolding xe using h la dist s p t anc depth lin by auto
qed

lemma base_hands_on: "\<forall>t e. default_base None t = Some e \<longrightarrow> hands_on_parts e"
  using base_registry_hands_on_parts by blast

theorem ancestor_sequence_witness:
  "ancestor 12 ex_program (\<lambda>t. if t = ''CallExpression'' then Some ''onCall'' else None)
     None Undefined
   = Some ([(''onCall'', ex_inner, Arr [ex_program, ex_stmt, ex_outer, ex_inner],
             [ex_program, ex_stmt, ex_outer, ex_inner]),
            (''onCall'', ex_outer, Arr [ex_program, ex_stmt, ex_outer],
             [ex_program, ex_stmt, ex_outer])], None)
   \<and> lineage [ex_program, ex_stmt, ex_outer, ex_inner]
   \<and> (ex_inner, 4) \<in> set (node_depths 0 ex_program)"
proof -
  let ?vis = "\<lambda>t. if t = ''CallExpression'' then Some ''onCall'' else None"
  let ?anc = "[ex_program, ex_stmt, ex_outer, ex_inner]"
  have calls: "ancestor_calls ?vis Undefined (post_paths [] ex_program_dtree)
        = [(''onCall'', ex_inner, Arr ?anc, ?anc),
            (''onCall'', ex_outer, Arr [ex_program, ex_stmt, ex_outer],
             [ex_program, ex_stmt, ex_outer])]"
    by code_simp
  note t = ancestor_sequence[OF ex_program_unfold base_hands_on, of ?vis Undefined]
  have 1: "ancestor 12 ex_program ?vis None Undefined
         = Some ([(''onCall'', ex_inner, Arr ?anc, ?anc),
            (''onCall'', ex_outer, Arr [ex_program, ex_stmt, ex_outer],
             [ex_program, ex_stmt, ex_outer])], None)"
    using t calls by simp
  have m: "(''onCall'', ex_inner, Arr ?anc, ?anc)
      \<in> set (ancestor_calls ?vis Undefined (post_paths [] ex_program_dtree))"
    unfolding calls by simp
  from t m have 2: "(lineage ?anc \<longrightarrow> (ex_inner, length ?anc) \<in> set (node_depths 0 ex_program))
      \<and> ((None :: registry option) = None
            \<and> (\<forall>a \<in> set (butlast ?anc). ntype a \<noteq> Some ''ObjectPattern'')
          \<longrightarrow> lineage ?anc)"
    by fast
  have 3: "\<forall>a \<in> set (butlast ?anc). ntype a \<noteq> Some ''ObjectPattern''"
    by code_simp
  from 2 3 have 4: "lineage ?anc" by blast
  have len: "length ?anc = 4" by simp
  from 2 4 have "(ex_inner, length ?anc) \<in> set (node_depths 0 ex_program)" by blast
  then have 5: "(ex_inner, 4) \<in> set (node_depths 0 ex_program)" unfolding len .
  from 1 4 5 show ?thesis by blast
qed

text \<open>
  The claim as stated fails below an object pattern.  In \<open>({a: b} = x)\<close> the identifier
  \<open>b\<close> has depth 6 in the tree (program, statement, assignment, pattern, property,
  identifier), and the sequence passed to its visitor has the 5 nodes that were
  dispatched: the property node is not among them, and \<open>b\<close> is no child of the
  pattern.
\<close>

theorem ancestor_sequence_counterexample:
  "ancestor 12 ex_pprogram (\<lambda>t. if t = ''Identifier'' then Some ''onIdentifier'' else None)
     None Undefined
   = Some ([(''onIdentifier'', ex_pb, Arr [ex_pprogram, ex_pstmt, ex_assign, ex_pattern, ex_pb],
             [ex_pprogram, ex_pstmt, ex_assign, ex_pattern, ex_pb]),
            (''onIdentifier'', ex_px, Arr [ex_pprogram, ex_pstmt, ex_assign, ex_px],
             [ex_pprogram, ex_pstmt, ex_assign, ex_px])], None)
   \<and> map snd (filter (\<lambda>x. fst x = ex_pb) (node_depths 0 ex_pprogram)) = [6]
   \<and> children ex_pattern = [ex_property]
   \<and> children ex_property = [ex_pa, ex_pb]"
  by code_simp

subsection \<open>The find family\<close>

lemma at_dts_seq: "at_dts start end test st ds tr = seq_kids (at_dt start end test st) ds tr"
  by (induction ds arbitrary: tr) (auto split: prod.splits option.splits)

lemma around_dts_seq: "around_dts pos test st ds tr = seq_kids (around_dt pos test st) ds tr"
  by (induction ds arbitrary: tr) (auto split: prod.splits option.splits)

lemma after_dts_seq: "after_dts pos test st ds tr = seq_kids (after_dt pos test st) ds tr"
  by (induction ds arbitrary: tr) (auto split: prod.splits option.splits)

lemma before_dts_seq: "before_dts pos test st ds a = seq_kids (before_dt pos test st) ds a"
  by (induction ds arbitrary: a) (auto split: prod.splits option.splits)

lemma findNodeAt_c_unfold:
  "unfold n reg v ov = Some d \<Longrightarrow>
   findNodeAt_c n start end test reg st tr v ov = Some (at_dt start end test st d tr)"
proof (induction n arbitrary: v ov d tr)
  case 0
  then show ?case by simp
next
  case (Suc n)
  from Suc.prems obtain ty entry kids where ty: "ntype v = Some ty"
    and e: "reg (effective_type ov ty) = Some entry"
    and k: "unfold_steps (unfold n reg) (entry v) = Some kids"
    and d: "d = DT v (effective_type ov ty) kids"
    by (rule unfold_Suc)
  have "run_steps (findNodeAt_c n start end test reg st) a (entry v)
      = Some (seq_kids (at_dt start end test st) kids a)" for a
    by (rule run_steps_unfold[OF k]) (rule Suc.IH)
  then show ?case
    using ty e d by (simp add: Let_def at_dts_seq split: prod.splits option.splits)
qed

lemma findNodeAround_c_unfold:
  "unfold n reg v ov = Some d \<Longrightarrow>
   findNodeAround_c n pos test reg st tr v ov = Some (around_dt pos test st d tr)"
proof (induction n arbitrary: v ov d tr)
  case 0
  then show ?case by simp
next
  case (Suc n)
  from Suc.prems obtain ty entry kids where ty: "ntype v = Some ty"
    and e: "reg (effective_type ov ty) = Some entry"
    and k: "unfold_steps (unfold n reg) (entry v) = Some kids"
    and d: "d = DT v (effective_type ov ty) kids"
    by (rule unfold_Suc)
  have "run_steps (findNodeAround_c n pos test reg st) a (entry v)
      = Some (seq_kids (around_dt pos test st) kids a)" for a
    by (rule run_steps_unfold[OF k]) (rule Suc.IH)
  then show ?case
    using ty e d by (simp add: Let_def around_dts_seq split: prod.splits option.splits)
qed

lemma findNodeAfter_c_unfold:
  "unfold n reg v ov = Some d \<Longrightarrow>
   findNodeAfter_c n pos test reg st tr v ov = Some (after_dt pos test st d tr)"
proof (induction n arbitrary: v ov d tr)
  case 0
  then show ?case by simp
next
  case (Suc n)
  from Suc.prems obtain ty entry kids where ty: "ntype v = Some ty"
    and e: "reg (effective_type ov ty) = Some entry"
    and k: "unfold_steps (unfold n reg) (entry v) = Some kids"
    and d: "d = DT v (effective_type ov ty) kids"
    by (rule unfold_Suc)
  have "run_steps (findNodeAfter_c n pos test reg st) a (entry v)
      = Some (seq_kids (after_dt pos test st) kids a)" for a
    by (rule run_steps_unfold[OF k]) (rule Suc.IH)
  then show ?case
    using ty e d by (simp add: Let_def after_dts_seq split: prod.splits option.splits)
qed

lemma findNodeBefore_c_unfold:
  "unfold n reg v ov = Some d \<Longrightarrow>
   findNodeBefore_c n pos test reg st a v ov = Some (before_dt pos test st d a)"
proof (induction n arbitrary: v ov d a)
  case 0
  then show ?case by simp
next
  case (Suc n)
  from Suc.prems obtain ty entry kids where ty: "ntype v = Some ty"
    and e: "reg (effective_type ov ty) = Some entry"
    and k: "unfold_steps (unfold n reg) (entry v) = Some kids"
    and d: "d = DT v (effective_type ov ty) kids"
    by (rule unfold_Suc)
  have "run_steps (findNodeBefore_c n pos test reg st) a (entry v)
      = Some (seq_kids (before_dt pos test st) kids a)" for a
    by (rule run_steps_unfold[OF k]) (rule Suc.IH)
  then show ?case
    using ty e d
    by (simp add: Let_def before_dts_seq candidate_def split: prod.splits option.splits)
qed

lemma descents_append: "descents (xs @ ys) = descents xs @ descents ys"
  by (induction xs rule: descents.induct) simp_all

lemma tests_append: "tests (xs @ ys) = tests xs @ tests ys"
  by (induction xs rule: tests.induct) simp_all

lemma before_dt_no_throw:
  "snd (before_dt pos test st d a) = None"
  "snd (before_dts pos test st ds a) = None"
  by (induction pos test st d a and pos test st ds a rule: before_dt_before_dts.induct)
     (auto split: prod.splits option.splits)

lemma before_dt_best:
  "fst (fst (before_dt pos test st d a)) = foldl (improve pos test st) (fst a) (before_scan pos d)"
  "fst (fst (before_dts pos test st ds a))
     = foldl (improve pos test st) (fst a) (concat (map (before_scan pos) ds))"
proof (induction pos test st d a and pos test st ds a rule: before_dt_before_dts.induct)
  case (1 pos test st v t kids a)
  then show ?case by (simp add: improve_def)
next
  case (2 pos test st a)
  then show ?case by simp
next
  case (3 pos test st d ds a)
  obtain a' x where r: "before_dt pos test st d a = (a', x)" by (cases "before_dt pos test st d a")
  have x: "x = None" using before_dt_no_throw(1)[of pos test st d a] r by simp
  show ?case using 3 r x by simp
qed

lemma before_dt_descents:
  "descents (snd (fst (before_dt pos test st d a))) = descents (snd a) @ before_scan pos d"
  "descents (snd (fst (before_dts pos test st ds a)))
     = descents (snd a) @ concat (map (before_scan pos) ds)"
proof (induction pos test st d a and pos test st ds a rule: before_dt_before_dts.induct)
  case (1 pos test st v t kids a)
  then show ?case by (simp add: descents_append)
next
  case (2 pos test st a)
  then show ?case by simp
next
  case (3 pos test st d ds a)
  obtain a' x where r: "before_dt pos test st d a = (a', x)" by (cases "before_dt pos test st d a")
  have x: "x = None" using before_dt_no_throw(1)[of pos test st d a] r by simp
  show ?case using 3 r x by simp
qed

lemma improve_None:
  "improve pos test st None x = (if ends_before pos test x then Some (fst x, st) else None)"
  by (simp add: improve_def candidate_def ends_before_def)

lemma improve_Some:
  "improve pos test st (Some (N, s)) x =
     (if ends_before pos test x \<and> nend N < nend (fst x) then Some (fst x, st) else Some (N, s))"
  by (auto simp: improve_def candidate_def ends_before_def)

lemma first_max_NoneI: "qs = [] \<Longrightarrow> first_max qs None st"
  by (simp add: first_max_def)

lemma first_max_SomeI:
  "qs = pre @ (N, T) # post \<Longrightarrow> \<forall>y \<in> set pre. nend (fst y) < nend N \<Longrightarrow>
   \<forall>y \<in> set post. nend (fst y) \<le> nend N \<Longrightarrow> first_max qs (Some (N, st)) st"
  unfolding first_max_def by (simp del: append_assoc) blast

lemma improve_first_max:
  "first_max (filter (ends_before pos test) xs) (foldl (improve pos test st) None xs) st"
proof (induction xs rule: rev_induct)
  case Nil
  then show ?case by (simp add: first_max_def)
next
  case (snoc x xs)
  let ?r = "foldl (improve pos test st) None xs"
  let ?qs = "filter (ends_before pos test) xs"
  have step: "foldl (improve pos test st) None (xs @ [x]) = improve pos test st ?r x" by simp
  show ?case
  proof (cases "ends_before pos test x")
    case False
    then have "improve pos test st ?r x = ?r"
      by (cases ?r) (auto simp: improve_None improve_Some)
    then show ?thesis using False snoc by (simp only: step filter_append) simp
  next
    case q: True
    then have qs: "filter (ends_before pos test) (xs @ [x]) = ?qs @ [x]" by simp
    show ?thesis
    proof (cases ?r)
      case None
      then have "?qs = []" using snoc by (simp add: first_max_def)
      moreover have "improve pos test st ?r x = Some (fst x, st)"
        using None q by (simp add: improve_None)
      ultimately show ?thesis
        unfolding step qs
        using first_max_SomeI[of "[x]" "[]" "fst x" "snd x" "[]" st] by simp
    next
      case (Some m)
      obtain N s where m: "m = (N, s)" by (cases m)
      from snoc Some m obtain T pre post where s: "s = st"
        and f: "?qs = pre @ (N, T) # post"
        and pre: "\<forall>y \<in> set pre. nend (fst y) < nend N"
        and post: "\<forall>y \<in> set post. nend (fst y) \<le> nend N"
        unfolding first_max_def by auto
      show ?thesis
      proof (cases "nend N < nend (fst x)")
        case False
        then have i: "improve pos test st ?r x = Some (N, st)"
          using Some m s by (simp add: improve_Some)
        have "?qs @ [x] = pre @ (N, T) # (post @ [x])" using f by simp
        moreover have "\<forall>y \<in> set (post @ [x]). nend (fst y) \<le> nend N"
          using post False by auto
        ultimately have "first_max (?qs @ [x]) (Some (N, st)) st"
          using pre by (intro first_max_SomeI[where pre = pre and T = T]) auto
        then show ?thesis unfolding step qs i .
      next
        case gt: True
        then have i: "improve pos test st ?r x = Some (fst x, st)"
          using Some m q by (simp add: improve_Some)
        have "?qs @ [x] = ?qs @ (fst x, snd x) # []" by simp
        moreover have "\<forall>y \<in> set ?qs. nend (fst y) < nend (fst x)"
          unfolding f using pre post gt by fastforce
        moreover have "\<forall>y \<in> set ([]::(jsval \<times> string) list). nend (fst y) \<le> nend (fst x)"
          by simp
        ultimately have "first_max (?qs @ [x]) (Some (fst x, st)) st"
          by (rule first_max_SomeI)
        then show ?thesis unfolding step qs i .
      qed
    qed
  qed
qed

lemma nested_bounds:
  "nested d \<Longrightarrow> x \<in> set (preorder d) \<Longrightarrow>
     nstart (dnode d) \<le> nstart (fst x) \<and> nend (fst x) \<le> nend (dnode d)
     \<and> nstart (fst x) \<le> nend (fst x)"
proof (induction d arbitrary: x)
  case (DT v t kids)
  show ?case
  proof (cases "x = (v, t)")
    case True
    with DT.prems show ?thesis by simp
  next
    case False
    with DT.prems obtain k where k: "k \<in> set kids" and x: "x \<in> set (preorder k)" by auto
    have nk: "nested k" and b: "nstart v \<le> nstart (dnode k)" "nend (dnode k) \<le> nend v"
      using DT.prems(1) k by auto
    from DT.IH[OF k nk x] b show ?thesis by simp
  qed
qed

lemma before_scan_nested:
  "nested d \<Longrightarrow> before_scan pos d = filter (\<lambda>x. nstart (fst x) \<le> pos) (preorder d)"
proof (induction d)
  case (DT v t kids)
  show ?case
  proof (cases "nstart v > pos")
    case True
    have "\<not> nstart (fst x) \<le> pos" if "x \<in> set (preorder (DT v t kids))" for x
      using nested_bounds[OF DT.prems that] True by simp
    then have "filter (\<lambda>x. nstart (fst x) \<le> pos) (preorder (DT v t kids)) = []"
      unfolding filter_empty_conv by blast
    then show ?thesis using True by simp
  next
    case False
    have "before_scan pos k = filter (\<lambda>x. nstart (fst x) \<le> pos) (preorder k)"
      if "k \<in> set kids" for k
      using DT.IH[OF that] DT.prems that by simp
    then have eq: "map (before_scan pos) kids
            = map (\<lambda>k. filter (\<lambda>x. nstart (fst x) \<le> pos) (preorder k)) kids"
      by (intro map_cong[OF refl])
    have "before_scan pos (DT v t kids) = (v, t) # concat (map (before_scan pos) kids)"
      using False by simp
    also have "\<dots> = (v, t) # concat (map (\<lambda>k. filter (\<lambda>x. nstart (fst x) \<le> pos) (preorder k)) kids)"
      by (simp only: eq)
    also have "\<dots> = filter (\<lambda>x. nstart (fst x) \<le> pos) (preorder (DT v t kids))"
      using False by (simp add: filter_concat comp_def)
    finally show ?thesis .
  qed
qed

lemma ends_before_scan:
  assumes "nested d"
  shows "filter (ends_before pos test) (before_scan pos d)
           = filter (ends_before pos test) (preorder d)"
proof -
  have "(nstart (fst x) \<le> pos \<and> ends_before pos test x) = ends_before pos test x"
    if "x \<in> set (preorder d)" for x
    using nested_bounds[OF assms that] by (auto simp: ends_before_def)
  then have "filter (\<lambda>x. nstart (fst x) \<le> pos \<and> ends_before pos test x) (preorder d)
          = filter (ends_before pos test) (preorder d)"
    by (intro filter_cong) auto
  then show ?thesis by (simp add: before_scan_nested[OF assms])
qed


lemma ex_three_unfold: "unfold 12 (default_base None) ex_three None = Some ex_three_dtree"
  by code_simp

lemma ex_three_nested: "nested ex_three_dtree"
  by code_simp

lemma findNodeBefore_char:
  assumes "unfold n (default_base b) node None = Some d"
  shows "\<exists>tr. findNodeBefore n node pos test b st
                 = Some (Inr (foldl (improve pos (makeTest test) st) None (before_scan pos d)), tr)
              \<and> descents tr = before_scan pos d"
proof -
  let ?r = "before_dt pos (makeTest test) st d (None, [])"
  have c: "findNodeBefore_c n pos (makeTest test) (default_base b) st (None, []) node None = Some ?r"
    by (rule findNodeBefore_c_unfold[OF assms])
  obtain best tr x where r: "?r = ((best, tr), x)" by (cases ?r) auto
  have x: "x = None" using before_dt_no_throw(1)[of pos "makeTest test" st d "(None, [])"] r by simp
  have best: "best = foldl (improve pos (makeTest test) st) None (before_scan pos d)"
    using before_dt_best(1)[of pos "makeTest test" st d "(None, [])"] r by simp
  have tr: "descents tr = before_scan pos d"
    using before_dt_descents(1)[of pos "makeTest test" st d "(None, [])"] r by simp
  show ?thesis using c r x best tr by (simp add: findNodeBefore_def)
qed

lemma ex_program_nested: "nested ex_program_dtree"
  by code_simp

text \<open>
  C2 (as the code has it).  On a tree that the registry unfolds and whose intervals nest,
  \<open>findNodeBefore\<close> returns normally and never stops at a match: it descends into every
  dispatched node that starts at or before \<open>pos\<close>, and into no node that starts after
  \<open>pos\<close> (nothing is below such a node but nodes that start after \<open>pos\<close> too).  The
  result is absent exactly when no dispatched node ends at or before \<open>pos\<close> and passes
  the test; otherwise it is such a node, with the state, and no such node ends later.
\<close>

theorem findNodeBefore_widest:
  assumes "unfold n (default_base b) node None = Some d" and "nested d"
  shows "\<exists>r tr. findNodeBefore n node pos test b st = Some (Inr r, tr)
    \<and> descents tr = filter (\<lambda>x. nstart (fst x) \<le> pos) (preorder d)
    \<and> (case r of
         None \<Rightarrow> \<forall>x \<in> set (preorder d). \<not> ends_before pos (makeTest test) x
       | Some (N, s) \<Rightarrow> s = st
           \<and> (\<exists>T. (N, T) \<in> set (preorder d) \<and> ends_before pos (makeTest test) (N, T))
           \<and> (\<forall>x \<in> set (preorder d). ends_before pos (makeTest test) x \<longrightarrow> nend (fst x) \<le> nend N))"
proof -
  let ?q = "ends_before pos (makeTest test)"
  let ?r = "foldl (improve pos (makeTest test) st) None (before_scan pos d)"
  from findNodeBefore_char[OF assms(1), of pos test st] obtain tr where
    f: "findNodeBefore n node pos test b st = Some (Inr ?r, tr)"
    and tr: "descents tr = before_scan pos d" by blast
  have fm: "first_max (filter ?q (preorder d)) ?r st"
    using improve_first_max[of pos "makeTest test" "before_scan pos d" st]
    by (simp add: ends_before_scan[OF assms(2)])
  have "case ?r of
         None \<Rightarrow> \<forall>x \<in> set (preorder d). \<not> ?q x
       | Some (N, s) \<Rightarrow> s = st
           \<and> (\<exists>T. (N, T) \<in> set (preorder d) \<and> ?q (N, T))
           \<and> (\<forall>x \<in> set (preorder d). ?q x \<longrightarrow> nend (fst x) \<le> nend N)"
  proof (cases ?r)
    case None
    then have "filter ?q (preorder d) = []" using fm by (simp add: first_max_def)
    then show ?thesis using None by (simp add: filter_empty_conv)
  next
    case (Some m)
    obtain N s where m: "m = (N, s)" by (cases m)
    from fm Some m obtain T pre post where s: "s = st"
      and qs: "filter ?q (preorder d) = pre @ (N, T) # post"
      and pre: "\<forall>y \<in> set pre. nend (fst y) < nend N"
      and post: "\<forall>y \<in> set post. nend (fst y) \<le> nend N"
      unfolding first_max_def by auto
    have "(N, T) \<in> set (filter ?q (preorder d))" unfolding qs by simp
    then have a: "(N, T) \<in> set (preorder d) \<and> ?q (N, T)" by simp
    have b: "nend (fst x) \<le> nend N" if "x \<in> set (preorder d)" "?q x" for x
    proof -
      have "x \<in> set (filter ?q (preorder d))" using that by simp
      then have "x \<in> set pre \<or> x = (N, T) \<or> x \<in> set post" unfolding qs by auto
      then show ?thesis using pre post by auto
    qed
    show ?thesis using Some m s a b by auto
  qed
  then show ?thesis using f tr before_scan_nested[OF assms(2), of pos] by auto
qed

theorem findNodeBefore_widest_witness:
  "\<exists>tr. findNodeBefore 12 ex_three 15 (TestString ''Statement'') None ()
            = Some (Inr (Some (ex_s2, ())), tr)
     \<and> descents tr =
         [(ex_three, ''Program''),
          (ex_s1, ''Statement''), (ex_s1, ''ExpressionStatement''),
          (ex_e1, ''Expression''), (ex_e1, ''Identifier''),
          (ex_s2, ''Statement''), (ex_s2, ''ExpressionStatement''),
          (ex_e2, ''Expression''), (ex_e2, ''Identifier''),
          (ex_s3, ''Statement''), (ex_s3, ''ExpressionStatement''),
          (ex_e3, ''Expression''), (ex_e3, ''Identifier'')]"
proof -
  from findNodeBefore_widest[OF ex_three_unfold ex_three_nested, of 15 "TestString ''Statement''" "()"]
  obtain r tr where
    f: "findNodeBefore 12 ex_three 15 (TestString ''Statement'') None () = Some (Inr r, tr)"
    and d: "descents tr = filter (\<lambda>x. nstart (fst x) \<le> 15) (preorder ex_three_dtree)"
    by blast
  have "fst (the (findNodeBefore 12 ex_three 15 (TestString ''Statement'') None ()))
          = Inr (Some (ex_s2, ()))"
    by code_simp
  then have r: "r = Some (ex_s2, ())" using f by simp
  have "filter (\<lambda>x. nstart (fst x) \<le> 15) (preorder ex_three_dtree) =
         [(ex_three, ''Program''),
          (ex_s1, ''Statement''), (ex_s1, ''ExpressionStatement''),
          (ex_e1, ''Expression''), (ex_e1, ''Identifier''),
          (ex_s2, ''Statement''), (ex_s2, ''ExpressionStatement''),
          (ex_e2, ''Expression''), (ex_e2, ''Identifier''),
          (ex_s3, ''Statement''), (ex_s3, ''ExpressionStatement''),
          (ex_e3, ''Expression''), (ex_e3, ''Identifier'')]"
    by code_simp
  then show ?thesis using f r d by simp
qed

text \<open>
  The claim as stated fails: the scan does not visit the entire tree.  Asked for
  \<open>pos = 7\<close>, it leaves the third statement, which starts at 13, at once, and never
  reaches the expression in it.
\<close>

theorem findNodeBefore_widest_counterexample:
  "(case findNodeBefore 12 ex_three 7 TestAbsent None () of
      None \<Rightarrow> False
    | Some (r, tr) \<Rightarrow>
        r = Inr (Some (ex_s1, ()))
        \<and> map fst (descents tr)
            = [ex_three, ex_s1, ex_s1, ex_e1, ex_e1, ex_s2, ex_s2, ex_e2, ex_e2])
   \<and> ex_e3 \<in> set (parts ex_three)"
  by code_simp

text \<open>
  C9.  Among the dispatched nodes that end at or before \<open>pos\<close> and pass the test, taken
  in pre-order (an enclosing dispatch before those beneath it), the node returned is the
  first of those that end latest: every qualifying dispatch before it ends strictly
  earlier, and none after it ends later.
\<close>

theorem findNodeBefore_first_of_ties:
  assumes "unfold n (default_base b) node None = Some d" and "nested d"
  shows "\<exists>r tr. findNodeBefore n node pos test b st = Some (Inr r, tr)
    \<and> first_max (filter (ends_before pos (makeTest test)) (preorder d)) r st"
proof -
  from findNodeBefore_char[OF assms(1), of pos test st] obtain tr where
    f: "findNodeBefore n node pos test b st
          = Some (Inr (foldl (improve pos (makeTest test) st) None (before_scan pos d)), tr)"
    by blast
  have "first_max (filter (ends_before pos (makeTest test)) (preorder d))
          (foldl (improve pos (makeTest test) st) None (before_scan pos d)) st"
    using improve_first_max[of pos "makeTest test" "before_scan pos d" st]
    by (simp add: ends_before_scan[OF assms(2)])
  then show ?thesis using f by blast
qed

theorem findNodeBefore_first_of_ties_witness:
  "\<exists>tr. findNodeBefore 12 ex_program 7 TestAbsent None ()
            = Some (Inr (Some (ex_program, ())), tr)
     \<and> first_max
          [(ex_program, ''Program''), (ex_stmt, ''Statement''),
           (ex_stmt, ''ExpressionStatement''), (ex_outer, ''Expression''),
           (ex_outer, ''CallExpression''), (ex_f, ''Expression''), (ex_f, ''Identifier''),
           (ex_inner, ''Expression''), (ex_inner, ''CallExpression''),
           (ex_g, ''Expression''), (ex_g, ''Identifier''),
           (ex_x, ''Expression''), (ex_x, ''Identifier'')]
          (Some (ex_program, ())) ()"
proof -
  from findNodeBefore_first_of_ties[OF ex_program_unfold ex_program_nested, of 7 TestAbsent "()"]
  obtain r tr where
    f: "findNodeBefore 12 ex_program 7 TestAbsent None () = Some (Inr r, tr)"
    and m: "first_max (filter (ends_before 7 (makeTest TestAbsent)) (preorder ex_program_dtree))
              r ()"
    by blast
  have "fst (the (findNodeBefore 12 ex_program 7 TestAbsent None ()))
          = Inr (Some (ex_program, ()))"
    by code_simp
  then have r: "r = Some (ex_program, ())" using f by simp
  have "filter (ends_before 7 (makeTest TestAbsent)) (preorder ex_program_dtree) =
          [(ex_program, ''Program''), (ex_stmt, ''Statement''),
           (ex_stmt, ''ExpressionStatement''), (ex_outer, ''Expression''),
           (ex_outer, ''CallExpression''), (ex_f, ''Expression''), (ex_f, ''Identifier''),
           (ex_inner, ''Expression''), (ex_inner, ''CallExpression''),
           (ex_g, ''Expression''), (ex_g, ''Identifier''),
           (ex_x, ''Expression''), (ex_x, ''Identifier'')]"
    by code_simp
  then show ?thesis using f r m by simp
qed

lemma find_append:
  "List.find P (xs @ ys) = (case List.find P xs of None \<Rightarrow> List.find P ys | Some x \<Rightarrow> Some x)"
  by (induction xs) auto

lemma find_filter: "List.find Q (filter P xs) = List.find (\<lambda>x. P x \<and> Q x) xs"
  by (induction xs) auto

lemma find_concat_Some:
  "List.find P (concat (map f ks)) = Some x \<Longrightarrow> \<exists>k \<in> set ks. List.find P (f k) = Some x"
  by (induction ks) (auto simp: find_append split: option.splits)












lemma around_scan_contains: "x \<in> set (around_scan pos d) \<Longrightarrow> contains_pos pos (fst x)"
proof (induction d)
  case (DT v t kids)
  then show ?case by (auto simp: contains_pos_def split: if_splits)
qed

lemma around_dt_char:
  "around_dt pos test st d tr = (tr', x) \<Longrightarrow>
     x = map_option (\<lambda>y. Found (fst y) st) (List.find (around_pos pos test) (around_scan pos d))
     \<and> (\<forall>y \<in> set (descents tr'). y \<in> set (descents tr) \<or> contains_pos pos (fst y))"
  "around_dts pos test st ds tr = (tr', x) \<Longrightarrow>
     x = map_option (\<lambda>y. Found (fst y) st)
           (List.find (around_pos pos test) (concat (map (around_scan pos) ds)))
     \<and> (\<forall>y \<in> set (descents tr'). y \<in> set (descents tr) \<or> contains_pos pos (fst y))"
proof (induction pos test st d tr and pos test st ds tr arbitrary: tr' x and tr' x
    rule: around_dt_around_dts.induct)
  case (1 pos test st v t kids tr)
  show ?case
  proof (cases "nstart v > pos \<or> nend v < pos")
    case True
    with 1(2) show ?thesis by simp
  next
    case False
    then have cv: "contains_pos pos v" by (simp add: contains_pos_def)
    obtain tr1 x1 where r1: "around_dts pos test st kids (tr @ [Descend t v]) = (tr1, x1)"
      by (cases "around_dts pos test st kids (tr @ [Descend t v])")
    from 1(1)[OF False r1]
    have x1: "x1 = map_option (\<lambda>y. Found (fst y) st)
           (List.find (around_pos pos test) (concat (map (around_scan pos) kids)))"
      and d1: "\<forall>y \<in> set (descents tr1). y \<in> set (descents (tr @ [Descend t v]))
                 \<or> contains_pos pos (fst y)" by simp_all
    have d1': "\<forall>y \<in> set (descents tr1). y \<in> set (descents tr) \<or> contains_pos pos (fst y)"
      using d1 cv by (auto simp: descents_append)
    show ?thesis
    proof (cases x1)
      case (Some z)
      then have "tr' = tr1" "x = x1" using 1(2) False r1 by auto
      moreover obtain w where "List.find (around_pos pos test) (concat (map (around_scan pos) kids)) = Some w"
        using x1 Some by (cases "List.find (around_pos pos test) (concat (map (around_scan pos) kids))") auto
      ultimately show ?thesis using x1 d1' False by (simp add: find_append)
    next
      case None
      then have f: "List.find (around_pos pos test) (concat (map (around_scan pos) kids)) = None"
        using x1 by simp
      have res: "(tr', x) = (if test t v then (tr1 @ [Test t v], Some (Found v st))
                             else (tr1 @ [Test t v], None))"
        using 1(2) False r1 None by simp
      have q: "around_pos pos test (v, t) = test t v" using cv by (simp add: around_pos_def)
      show ?thesis using res f d1' False q by (auto simp: find_append descents_append)
    qed
  qed
next
  case (2 pos test st tr)
  then show ?case by simp
next
  case (3 pos test st d ds tr)
  obtain tr1 x1 where r1: "around_dt pos test st d tr = (tr1, x1)"
    by (cases "around_dt pos test st d tr")
  note ih1 = 3(1)[OF r1]
  show ?case
  proof (cases x1)
    case None
    then have f: "List.find (around_pos pos test) (around_scan pos d) = None"
      using ih1 by simp
    have r: "around_dts pos test st ds tr1 = (tr', x)" using 3(3) r1 None by simp
    from 3(2)[OF r1[symmetric] None r] ih1 f show ?thesis
      by (auto simp: find_append)
  next
    case (Some y)
    then have eq: "tr' = tr1" "x = x1" using 3(3) r1 by auto
    from ih1 Some obtain z where f: "List.find (around_pos pos test) (around_scan pos d) = Some z"
      by (cases "List.find (around_pos pos test) (around_scan pos d)") auto
    show ?thesis using ih1 eq f by (simp add: find_append)
  qed
qed

lemma around_dt_found:
  "around_dt pos test st d tr = (tr', Some y) \<Longrightarrow>
     \<exists>N T. y = Found N st \<and> tr' \<noteq> [] \<and> last tr' = Test T N"
  "around_dts pos test st ds tr = (tr', Some y) \<Longrightarrow>
     \<exists>N T. y = Found N st \<and> tr' \<noteq> [] \<and> last tr' = Test T N"
proof (induction pos test st d tr and pos test st ds tr arbitrary: tr' y and tr' y
    rule: around_dt_around_dts.induct)
  case (1 pos test st v t kids tr)
  from 1(2) have nf: "\<not> (nstart v > pos \<or> nend v < pos)" by (auto split: if_splits)
  obtain tr1 x1 where r1: "around_dts pos test st kids (tr @ [Descend t v]) = (tr1, x1)"
    by (cases "around_dts pos test st kids (tr @ [Descend t v])")
  show ?case
  proof (cases x1)
    case (Some z)
    then have "around_dts pos test st kids (tr @ [Descend t v]) = (tr', Some y)"
      using 1(2) nf r1 by auto
    from 1(1)[OF nf this] show ?thesis .
  next
    case None
    then show ?thesis using 1(2) nf r1 by (auto split: if_splits)
  qed
next
  case (2 pos test st tr)
  then show ?case by simp
next
  case (3 pos test st d ds tr)
  obtain tr1 x1 where r1: "around_dt pos test st d tr = (tr1, x1)"
    by (cases "around_dt pos test st d tr")
  show ?case
  proof (cases x1)
    case None
    then have "around_dts pos test st ds tr1 = (tr', Some y)" using 3(3) r1 by simp
    from 3(2)[OF r1[symmetric] None this] show ?thesis .
  next
    case (Some z)
    then have "around_dt pos test st d tr = (tr', Some y)" using 3(3) r1 by auto
    from 3(1)[OF this] show ?thesis .
  qed
qed

lemma nested_kid_bounds:
  "nested d \<Longrightarrow> x \<in> set (postorder d) \<Longrightarrow>
     nstart (dnode d) \<le> nstart (fst x) \<and> nend (fst x) \<le> nend (dnode d)"
proof (induction d arbitrary: x)
  case (DT v t kids)
  show ?case
  proof (cases "x = (v, t)")
    case True
    then show ?thesis by simp
  next
    case False
    with DT.prems obtain k where k: "k \<in> set kids" and x: "x \<in> set (postorder k)" by auto
    have nk: "nested k" and b: "nstart v \<le> nstart (dnode k)" "nend (dnode k) \<le> nend v"
      using DT.prems(1) k by auto
    from DT.IH[OF k nk x] b show ?thesis by simp
  qed
qed

lemma around_scan_nested:
  "nested d \<Longrightarrow> around_scan pos d = filter (\<lambda>x. contains_pos pos (fst x)) (postorder d)"
proof (induction d)
  case (DT v t kids)
  show ?case
  proof (cases "nstart v > pos \<or> nend v < pos")
    case True
    have "\<not> contains_pos pos (fst x)" if "x \<in> set (postorder (DT v t kids))" for x
      using nested_kid_bounds[OF DT.prems that] True by (auto simp: contains_pos_def)
    then have "filter (\<lambda>x. contains_pos pos (fst x)) (postorder (DT v t kids)) = []"
      unfolding filter_empty_conv by blast
    then show ?thesis using True by simp
  next
    case False
    have "around_scan pos k = filter (\<lambda>x. contains_pos pos (fst x)) (postorder k)"
      if "k \<in> set kids" for k
      using DT.IH[OF that] DT.prems that by simp
    then have eq: "map (around_scan pos) kids
            = map (\<lambda>k. filter (\<lambda>x. contains_pos pos (fst x)) (postorder k)) kids"
      by (intro map_cong[OF refl])
    have "around_scan pos (DT v t kids) = concat (map (around_scan pos) kids) @ [(v, t)]"
      using False by simp
    also have "\<dots> = concat (map (\<lambda>k. filter (\<lambda>x. contains_pos pos (fst x)) (postorder k)) kids) @ [(v, t)]"
      by (simp only: eq)
    also have "\<dots> = filter (\<lambda>x. contains_pos pos (fst x)) (postorder (DT v t kids))"
      using False by (simp add: filter_concat comp_def contains_pos_def)
    finally show ?thesis .
  qed
qed

lemma find_around_scan:
  assumes "nested d"
  shows "List.find (around_pos pos test) (around_scan pos d)
           = List.find (around_pos pos test) (postorder d)"
proof -
  have "List.find (\<lambda>x. contains_pos pos (fst x) \<and> around_pos pos test x) (postorder d)
          = List.find (around_pos pos test) (postorder d)"
    by (intro find_cong) (auto simp: around_pos_def)
  then show ?thesis by (simp add: around_scan_nested[OF assms] find_filter)
qed

lemma set_postorder: "set (postorder d) = set (preorder d)"
  by (induction d) auto

lemma find_postorder_innermost:
  "List.find q (postorder d) = Some x \<Longrightarrow>
     \<exists>d' \<in> set (subtrees d). dlabel d' = x \<and> q x \<and> (\<forall>y \<in> set (beneath d'). \<not> q y)"
proof (induction d)
  case (DT v t kids)
  show ?case
  proof (cases "List.find q (concat (map postorder kids))")
    case None
    with DT.prems have x: "x = (v, t)" and qx: "q (v, t)"
      by (auto simp: find_append split: if_splits)
    have "\<forall>y \<in> set (concat (map postorder kids)). \<not> q y"
      using None by (auto simp: find_None_iff)
    then have "\<forall>y \<in> set (beneath (DT v t kids)). \<not> q y"
      by (auto simp: beneath_def set_postorder)
    then show ?thesis using x qx by (intro bexI[of _ "DT v t kids"]) auto
  next
    case (Some z)
    with DT.prems have "List.find q (concat (map postorder kids)) = Some x"
      by (simp add: find_append)
    then obtain k where k: "k \<in> set kids" and f: "List.find q (postorder k) = Some x"
      by (blast dest: find_concat_Some)
    from DT.IH[OF k f] obtain d' where "d' \<in> set (subtrees k)" "dlabel d' = x" "q x"
      "\<forall>y \<in> set (beneath d'). \<not> q y" by blast
    then show ?thesis using k by (intro bexI[of _ d']) auto
  qed
qed

text \<open>
  C4.  On a tree that the registry unfolds and whose intervals nest, \<open>findNodeAround\<close>
  returns normally.  Its result is the first dispatched node, in post-order (what is
  beneath a dispatch before the dispatch itself), whose interval contains \<open>pos\<close> and
  that passes the test, with the state; it is absent exactly when no dispatched node
  qualifies.  The search descends only into nodes whose interval contains \<open>pos\<close>.
  The node returned is innermost: no dispatch beneath it qualifies, and its test is the
  last thing the search does.
\<close>

theorem findNodeAround_innermost:
  assumes "unfold n (default_base b) node None = Some d" and "nested d"
  shows "\<exists>r tr. findNodeAround n node pos test b st = Some (Inr r, tr)
    \<and> r = map_option (\<lambda>x. (fst x, st)) (List.find (around_pos pos (makeTest test)) (postorder d))
    \<and> (r = None \<longleftrightarrow> (\<forall>x \<in> set (preorder d). \<not> around_pos pos (makeTest test) x))
    \<and> (\<forall>x \<in> set (descents tr). contains_pos pos (fst x))
    \<and> (\<forall>N s. r = Some (N, s) \<longrightarrow>
          (\<exists>T. tr \<noteq> [] \<and> last tr = Test T N)
          \<and> (\<exists>d' \<in> set (subtrees d). dnode d' = N \<and> around_pos pos (makeTest test) (dlabel d')
                \<and> (\<forall>y \<in> set (beneath d'). \<not> around_pos pos (makeTest test) y)))"
proof -
  let ?q = "around_pos pos (makeTest test)"
  obtain tr x where a: "around_dt pos (makeTest test) st d [] = (tr, x)"
    by (cases "around_dt pos (makeTest test) st d []")
  have c: "findNodeAround_c n pos (makeTest test) (default_base b) st [] node None = Some (tr, x)"
    using findNodeAround_c_unfold[OF assms(1), of pos "makeTest test" st "[]"] a by simp
  from around_dt_char(1)[OF a]
  have x: "x = map_option (\<lambda>y. Found (fst y) st) (List.find ?q (postorder d))"
    and desc: "\<forall>x \<in> set (descents tr). contains_pos pos (fst x)"
    by (simp_all add: find_around_scan[OF assms(2)])
  let ?r = "map_option (\<lambda>x. (fst x, st)) (List.find ?q (postorder d))"
  have f: "findNodeAround n node pos test b st = Some (Inr ?r, tr)"
    using c x by (cases "List.find ?q (postorder d)") (simp_all add: findNodeAround_def catch_Found_def)
  have none: "?r = None \<longleftrightarrow> (\<forall>x \<in> set (preorder d). \<not> ?q x)"
    by (auto simp: find_None_iff set_postorder)
  have some: "(\<exists>T. tr \<noteq> [] \<and> last tr = Test T N)
          \<and> (\<exists>d' \<in> set (subtrees d). dnode d' = N \<and> ?q (dlabel d')
                \<and> (\<forall>y \<in> set (beneath d'). \<not> ?q y))" if r: "?r = Some (N, s)" for N s
  proof -
    from r obtain y where y: "List.find ?q (postorder d) = Some y" and N: "fst y = N" by auto
    then have "x = Some (Found N st)" using x by simp
    from around_dt_found(1)[OF a[unfolded this]] have 1: "\<exists>T. tr \<noteq> [] \<and> last tr = Test T N"
      by auto
    from find_postorder_innermost[OF y] obtain d' where d': "d' \<in> set (subtrees d)"
      "dlabel d' = y" "?q y" "\<forall>y \<in> set (beneath d'). \<not> ?q y" by blast
    have "dnode d' = N" using d'(2) N by (cases d') auto
    with d' have 2: "\<exists>d' \<in> set (subtrees d). dnode d' = N \<and> ?q (dlabel d')
                \<and> (\<forall>y \<in> set (beneath d'). \<not> ?q y)" by auto
    from 1 2 show ?thesis by simp
  qed
  show ?thesis
    apply (rule exI[of _ ?r], rule exI[of _ tr])
    using f none desc some by blast
qed


theorem findNodeAround_innermost_witness:
  "\<exists>tr T. findNodeAround 12 ex_program 4 (TestString ''CallExpression'') None ()
            = Some (Inr (Some (ex_inner, ())), tr)
     \<and> last tr = Test T ex_inner"
proof -
  from findNodeAround_innermost[OF ex_program_unfold ex_program_nested,
      of 4 "TestString ''CallExpression''" "()"]
  obtain r tr where
    f: "findNodeAround 12 ex_program 4 (TestString ''CallExpression'') None () = Some (Inr r, tr)"
    and r: "r = map_option (\<lambda>x. (fst x, ()))
              (List.find (around_pos 4 (makeTest (TestString ''CallExpression'')))
                 (postorder ex_program_dtree))"
    and l: "\<forall>N s. r = Some (N, s) \<longrightarrow> (\<exists>T. tr \<noteq> [] \<and> last tr = Test T N)"
    by blast
  have "map_option (\<lambda>x. (fst x, ()))
          (List.find (around_pos 4 (makeTest (TestString ''CallExpression'')))
             (postorder ex_program_dtree)) = Some (ex_inner, ())"
    by code_simp
  then have "r = Some (ex_inner, ())" using r by simp
  then show ?thesis using f l by blast
qed

lemma unfold_steps_all2:
  "unfold_steps u steps = Some ds \<Longrightarrow>
     list_all2 (\<lambda>s d. \<exists>v ov. s = Call v ov \<and> u v ov = Some d) steps ds"
proof (induction steps arbitrary: ds)
  case Nil
  then show ?case by simp
next
  case (Cons s steps)
  show ?case
  proof (cases s)
    case Raise
    with Cons.prems show ?thesis by simp
  next
    case (Call v ov)
    with Cons.prems obtain d ds' where "u v ov = Some d"
      "unfold_steps u steps = Some ds'" "ds = d # ds'"
      by (auto split: option.splits)
    with Cons.IH[of ds'] Call show ?thesis by simp
  qed
qed

lemma unfold_entries:
  "unfold n reg v ov = Some d \<Longrightarrow> d' \<in> set (subtrees d) \<Longrightarrow>
     \<exists>entry. reg (snd (dlabel d')) = Some entry
        \<and> map dlabel (dkids d') = map step_label (entry (dnode d'))"
proof (induction n arbitrary: v ov d)
  case 0
  then show ?case by simp
next
  case (Suc n)
  from Suc.prems(1) obtain ty entry kids where ty: "ntype v = Some ty"
    and e: "reg (effective_type ov ty) = Some entry"
    and k: "unfold_steps (unfold n reg) (entry v) = Some kids"
    and d: "d = DT v (effective_type ov ty) kids"
    by (rule unfold_Suc)
  have a2: "list_all2 (\<lambda>s d. \<exists>v ov. s = Call v ov \<and> unfold n reg v ov = Some d) (entry v) kids"
    by (rule unfold_steps_all2[OF k])
  show ?case
  proof (cases "d' = d")
    case True
    have "list_all2 (\<lambda>s d. dlabel d = step_label s) (entry v) kids"
      by (rule list_all2_mono[OF a2]) (auto dest: unfold_label)
    then have "map dlabel kids = map step_label (entry v)"
      by (induction rule: list_all2_induct) auto
    then show ?thesis using True d e by simp
  next
    case False
    with Suc.prems(2) d obtain kid where kid: "kid \<in> set kids" and d': "d' \<in> set (subtrees kid)"
      by auto
    from unfold_steps_member[OF k kid] obtain v' ov' where "unfold n reg v' ov' = Some kid"
      by blast
    from Suc.IH[OF this d'] show ?thesis .
  qed
qed


lemma until_first_None: "List.find q xs = None \<Longrightarrow> until_first q xs = xs"
  by (induction xs) (auto split: if_splits)

lemma until_first_append_None:
  "List.find q xs = None \<Longrightarrow> until_first q (xs @ ys) = xs @ until_first q ys"
  by (induction xs) (auto split: if_splits)

lemma until_first_append_Some:
  "List.find q xs = Some z \<Longrightarrow> until_first q (xs @ ys) = until_first q xs"
  by (induction xs) (auto split: if_splits)

lemma find_append_None: "List.find q xs = None \<Longrightarrow> List.find q (xs @ ys) = List.find q ys"
  by (simp add: find_append)

lemma find_append_Some: "List.find q xs = Some z \<Longrightarrow> List.find q (xs @ ys) = Some z"
  by (simp add: find_append)

lemma before_tested_append:
  "before_tested pos test st best (xs @ ys) =
     before_tested pos test st best xs
       @ before_tested pos test st (foldl (improve pos test st) best xs) ys"
  by (induction xs arbitrary: best) auto

text \<open>
  The step that the three searches share: after the dispatches \<open>K\<close>, of which none
  passed, the dispatch \<open>y\<close> is tested.
\<close>

lemma tested_last:
  assumes "List.find P K = None" and "tests tr1 = tests tr @ until_first P K"
  shows "(if P y then Some (Found (fst y) st) else None)
           = map_option (\<lambda>y. Found (fst y) st) (List.find P (K @ [y]))"
    and "tests (tr1 @ [Test (snd y) (fst y)]) = tests tr @ until_first P (K @ [y])"
  using assms by (simp_all add: find_append_None until_first_append_None until_first_None tests_append)

lemma seq_found:
  assumes "x1 = map_option (\<lambda>y. Found (fst y) st) (List.find P K)"
    and "tests tr1 = tests tr @ until_first P K" and "x1 = Some y"
  shows "x1 = map_option (\<lambda>y. Found (fst y) st) (List.find P (K @ L))
     \<and> tests tr1 = tests tr @ until_first P (K @ L)"
proof -
  from assms(1,3) obtain z where z: "List.find P K = Some z" by (cases "List.find P K") auto
  show ?thesis using assms(1,2) z
    by (simp add: find_append_Some[OF z] until_first_append_Some[OF z])
qed

lemma seq_not_found:
  assumes "None = map_option (\<lambda>y. Found (fst y) st) (List.find P K)"
    and "tests tr1 = tests tr @ until_first P K"
    and "x = map_option (\<lambda>y. Found (fst y) st) (List.find P L)
          \<and> tests tr' = tests tr1 @ until_first P L"
  shows "x = map_option (\<lambda>y. Found (fst y) st) (List.find P (K @ L))
     \<and> tests tr' = tests tr @ until_first P (K @ L)"
proof -
  from assms(1) have z: "List.find P K = None" by (cases "List.find P K") auto
  show ?thesis using assms(2,3)
    by (simp add: find_append_None[OF z] until_first_append_None[OF z] until_first_None[OF z])
qed

lemma at_dt_char:
  "at_dt start end test st d tr = (tr', x) \<Longrightarrow>
     x = map_option (\<lambda>y. Found (fst y) st)
           (List.find (passes test) (filter (exact_bounds start end) (at_scan start end d)))
     \<and> tests tr' = tests tr
           @ until_first (passes test) (filter (exact_bounds start end) (at_scan start end d))"
  "at_dts start end test st ds tr = (tr', x) \<Longrightarrow>
     x = map_option (\<lambda>y. Found (fst y) st)
           (List.find (passes test)
              (filter (exact_bounds start end) (concat (map (at_scan start end) ds))))
     \<and> tests tr' = tests tr
           @ until_first (passes test)
               (filter (exact_bounds start end) (concat (map (at_scan start end) ds)))"
proof (induction start "end" test st d tr and start "end" test st ds tr
    arbitrary: tr' x and tr' x rule: at_dt_at_dts.induct)
  case (1 start "end" test st v t kids tr)
  let ?cov = "null_or start (\<lambda>s. nstart v \<le> s) \<and> null_or end (\<lambda>e. nend v \<ge> e)"
  let ?E = "exact_bounds start end"
  let ?P = "passes test"
  define K where "K = filter ?E (if ?cov then concat (map (at_scan start end) kids) else [])"
  define L where "L = (if ?E (v, t) then [(v, t)] else [])"
  let ?inner = "if ?cov then at_dts start end test st kids (tr @ [Descend t v]) else (tr, None)"
  obtain tr1 x1 where r1: "?inner = (tr1, x1)" by (cases ?inner)
  have inner: "x1 = map_option (\<lambda>y. Found (fst y) st) (List.find ?P K)"
      "tests tr1 = tests tr @ until_first ?P K"
  proof -
    have "x1 = map_option (\<lambda>y. Found (fst y) st) (List.find ?P K)
       \<and> tests tr1 = tests tr @ until_first ?P K"
    proof (cases ?cov)
      case True
      then have "at_dts start end test st kids (tr @ [Descend t v]) = (tr1, x1)" using r1 by simp
      from 1(1)[OF True this] True show ?thesis by (simp add: tests_append K_def)
    next
      case False
      then show ?thesis using r1 by (auto simp: K_def)
    qed
    then show "x1 = map_option (\<lambda>y. Found (fst y) st) (List.find ?P K)"
      "tests tr1 = tests tr @ until_first ?P K" by simp_all
  qed
  have sc: "filter ?E (at_scan start end (DT v t kids)) = K @ L"
    by (simp add: K_def L_def)
  have ex: "?E (v, t) = (null_or start (\<lambda>s. nstart v = s) \<and> null_or end (\<lambda>e. nend v = e))"
    by (simp add: exact_bounds_def)
  have pv: "?P (v, t) = test t v" by (simp add: passes_def)
  show ?case
  proof (cases x1)
    case (Some y)
    then have eq: "tr' = tr1" "x = x1" using 1(2) r1 by auto
    show ?thesis unfolding sc eq by (rule seq_found[OF inner Some])
  next
    case None
    have r: "(tr', x) = (if ?E (v, t)
              then (if test t v then (tr1 @ [Test t v], Some (Found v st))
                    else (tr1 @ [Test t v], None))
              else (tr1, None))"
      using 1(2) r1 None unfolding ex by simp
    have "x = map_option (\<lambda>y. Found (fst y) st) (List.find ?P L)
          \<and> tests tr' = tests tr1 @ until_first ?P L"
      using r pv by (auto simp: L_def tests_append split: if_splits)
    from seq_not_found[OF inner(1)[unfolded None] inner(2) this] show ?thesis unfolding sc .
  qed
next
  case (2 start "end" test st tr)
  then show ?case by simp
next
  case (3 start "end" test st d ds tr)
  let ?E = "exact_bounds start end"
  let ?P = "passes test"
  obtain tr1 x1 where r1: "at_dt start end test st d tr = (tr1, x1)"
    by (cases "at_dt start end test st d tr")
  from 3(1)[OF r1] have ih1:
    "x1 = map_option (\<lambda>y. Found (fst y) st) (List.find ?P (filter ?E (at_scan start end d)))"
    "tests tr1 = tests tr @ until_first ?P (filter ?E (at_scan start end d))" by simp_all
  have sc: "filter ?E (concat (map (at_scan start end) (d # ds)))
      = filter ?E (at_scan start end d) @ filter ?E (concat (map (at_scan start end) ds))"
    by simp
  show ?case
  proof (cases x1)
    case None
    have r: "at_dts start end test st ds tr1 = (tr', x)" using 3(3) r1 None by simp
    from seq_not_found[OF ih1(1)[unfolded None] ih1(2) 3(2)[OF r1[symmetric] None r]]
    show ?thesis unfolding sc .
  next
    case (Some y)
    then have eq: "tr' = tr1" "x = x1" using 3(3) r1 by auto
    show ?thesis unfolding sc eq by (rule seq_found[OF ih1 Some])
  qed
qed

lemma around_dt_tests:
  "around_dt pos test st d tr = (tr', x) \<Longrightarrow>
     x = map_option (\<lambda>y. Found (fst y) st) (List.find (passes test) (around_scan pos d))
     \<and> tests tr' = tests tr @ until_first (passes test) (around_scan pos d)"
  "around_dts pos test st ds tr = (tr', x) \<Longrightarrow>
     x = map_option (\<lambda>y. Found (fst y) st)
           (List.find (passes test) (concat (map (around_scan pos) ds)))
     \<and> tests tr' = tests tr @ until_first (passes test) (concat (map (around_scan pos) ds))"
proof (induction pos test st d tr and pos test st ds tr arbitrary: tr' x and tr' x
    rule: around_dt_around_dts.induct)
  case (1 pos test st v t kids tr)
  let ?P = "passes test"
  show ?case
  proof (cases "nstart v > pos \<or> nend v < pos")
    case True
    with 1(2) show ?thesis by auto
  next
    case False
    define K where "K = concat (map (around_scan pos) kids)"
    obtain tr1 x1 where r1: "around_dts pos test st kids (tr @ [Descend t v]) = (tr1, x1)"
      by (cases "around_dts pos test st kids (tr @ [Descend t v])")
    from 1(1)[OF False r1]
    have inner: "x1 = map_option (\<lambda>y. Found (fst y) st) (List.find ?P K)"
       "tests tr1 = tests tr @ until_first ?P K" by (simp_all add: tests_append K_def)
    have sc: "around_scan pos (DT v t kids) = K @ [(v, t)]" using False by (simp add: K_def)
    have pv: "?P (v, t) = test t v" by (simp add: passes_def)
    show ?thesis
    proof (cases x1)
      case (Some y)
      then have eq: "tr' = tr1" "x = x1" using 1(2) r1 False by auto
      show ?thesis unfolding sc eq by (rule seq_found[OF inner Some])
    next
      case None
      have r: "(tr', x) = (if test t v then (tr1 @ [Test t v], Some (Found v st))
                    else (tr1 @ [Test t v], None))"
        using 1(2) r1 None False by simp
      have "x = map_option (\<lambda>y. Found (fst y) st) (List.find ?P [(v, t)])
          \<and> tests tr' = tests tr1 @ until_first ?P [(v, t)]"
        using r pv by (auto simp: tests_append split: if_splits)
      from seq_not_found[OF inner(1)[unfolded None] inner(2) this] show ?thesis unfolding sc .
    qed
  qed
next
  case (2 pos test st tr)
  then show ?case by simp
next
  case (3 pos test st d ds tr)
  let ?P = "passes test"
  obtain tr1 x1 where r1: "around_dt pos test st d tr = (tr1, x1)"
    by (cases "around_dt pos test st d tr")
  from 3(1)[OF r1] have ih1:
    "x1 = map_option (\<lambda>y. Found (fst y) st) (List.find ?P (around_scan pos d))"
    "tests tr1 = tests tr @ until_first ?P (around_scan pos d)" by simp_all
  have sc: "concat (map (around_scan pos) (d # ds))
      = around_scan pos d @ concat (map (around_scan pos) ds)" by simp
  show ?case
  proof (cases x1)
    case None
    have r: "around_dts pos test st ds tr1 = (tr', x)" using 3(3) r1 None by simp
    from seq_not_found[OF ih1(1)[unfolded None] ih1(2) 3(2)[OF r1[symmetric] None r]]
    show ?thesis unfolding sc .
  next
    case (Some y)
    then have eq: "tr' = tr1" "x = x1" using 3(3) r1 by auto
    show ?thesis unfolding sc eq by (rule seq_found[OF ih1 Some])
  qed
qed

lemma after_dt_tests:
  "after_dt pos test st d tr = (tr', x) \<Longrightarrow>
     x = map_option (\<lambda>y. Found (fst y) st)
           (List.find (passes test) (filter (starts_at_or_after pos) (after_scan pos d)))
     \<and> tests tr' = tests tr
           @ until_first (passes test) (filter (starts_at_or_after pos) (after_scan pos d))"
  "after_dts pos test st ds tr = (tr', x) \<Longrightarrow>
     x = map_option (\<lambda>y. Found (fst y) st)
           (List.find (passes test)
              (filter (starts_at_or_after pos) (concat (map (after_scan pos) ds))))
     \<and> tests tr' = tests tr
           @ until_first (passes test)
               (filter (starts_at_or_after pos) (concat (map (after_scan pos) ds)))"
proof (induction pos test st d tr and pos test st ds tr arbitrary: tr' x and tr' x
    rule: after_dt_after_dts.induct)
  case (1 pos test st v t kids tr)
  let ?P = "passes test"
  let ?S = "starts_at_or_after pos"
  show ?case
  proof (cases "nend v < pos")
    case True
    with 1(2) show ?thesis by auto
  next
    case False
    define K where "K = filter ?S (concat (map (after_scan pos) kids))"
    have sv: "?S (v, t) = (pos \<le> nstart v)" by (simp add: starts_at_or_after_def)
    have pv: "?P (v, t) = test t v" by (simp add: passes_def)
    have sc: "filter ?S (after_scan pos (DT v t kids))
          = (if pos \<le> nstart v then [(v, t)] else []) @ K"
      using False by (simp add: K_def sv)
    show ?thesis
    proof (cases "pos \<le> nstart v \<and> test t v")
      case True
      with False 1(2) have "tr' = tr @ [Test t v]" "x = Some (Found v st)" by auto
      then show ?thesis unfolding sc using True pv by (simp add: tests_append)
    next
      case nq: False
      let ?tr0 = "(if nstart v \<ge> pos then tr @ [Test t v] else tr) @ [Descend t v]"
      have r: "after_dts pos test st kids ?tr0 = (tr', x)"
        using 1(2) False nq by auto
      have t0: "tests ?tr0 = tests tr @ (if pos \<le> nstart v then [(v, t)] else [])"
        by (simp add: tests_append)
      from 1(1)[OF False nq r]
      have ih: "x = map_option (\<lambda>y. Found (fst y) st) (List.find ?P K)"
        "tests tr' = tests ?tr0 @ until_first ?P K" by (simp_all add: K_def)
      show ?thesis
      proof (cases "pos \<le> nstart v")
        case True
        then have "\<not> ?P (v, t)" using nq pv by simp
        then show ?thesis unfolding sc using ih True by (simp add: tests_append)
      next
        case False
        then show ?thesis unfolding sc using ih by (simp add: tests_append)
      qed
    qed
  qed
next
  case (2 pos test st tr)
  then show ?case by simp
next
  case (3 pos test st d ds tr)
  let ?P = "passes test"
  let ?S = "starts_at_or_after pos"
  obtain tr1 x1 where r1: "after_dt pos test st d tr = (tr1, x1)"
    by (cases "after_dt pos test st d tr")
  from 3(1)[OF r1] have ih1:
    "x1 = map_option (\<lambda>y. Found (fst y) st) (List.find ?P (filter ?S (after_scan pos d)))"
    "tests tr1 = tests tr @ until_first ?P (filter ?S (after_scan pos d))" by simp_all
  have sc: "filter ?S (concat (map (after_scan pos) (d # ds)))
      = filter ?S (after_scan pos d) @ filter ?S (concat (map (after_scan pos) ds))" by simp
  show ?case
  proof (cases x1)
    case None
    have r: "after_dts pos test st ds tr1 = (tr', x)" using 3(3) r1 None by simp
    from seq_not_found[OF ih1(1)[unfolded None] ih1(2) 3(2)[OF r1[symmetric] None r]]
    show ?thesis unfolding sc .
  next
    case (Some y)
    then have eq: "tr' = tr1" "x = x1" using 3(3) r1 by auto
    show ?thesis unfolding sc eq by (rule seq_found[OF ih1 Some])
  qed
qed

lemma before_dt_tested:
  "tests (snd (fst (before_dt pos test st d a)))
     = tests (snd a) @ before_tested pos test st (fst a) (before_scan pos d)"
  "tests (snd (fst (before_dts pos test st ds a)))
     = tests (snd a) @ before_tested pos test st (fst a) (concat (map (before_scan pos) ds))"
proof (induction pos test st d a and pos test st ds a rule: before_dt_before_dts.induct)
  case (1 pos test st v t kids a)
  show ?case
  proof (cases "nstart v > pos")
    case True
    then show ?thesis by simp
  next
    case False
    from 1[OF False] False show ?thesis
      by (simp add: tests_append improve_def)
  qed
next
  case (2 pos test st a)
  then show ?case by simp
next
  case (3 pos test st d ds a)
  obtain a' x where r: "before_dt pos test st d a = (a', x)" by (cases "before_dt pos test st d a")
  have x: "x = None" using before_dt_no_throw(1)[of pos test st d a] r by simp
  have b: "fst a' = foldl (improve pos test st) (fst a) (before_scan pos d)"
    using before_dt_best(1)[of pos test st d a] r by simp
  have t: "tests (snd a') = tests (snd a) @ before_tested pos test st (fst a) (before_scan pos d)"
    using 3(1) r by simp
  from 3(2)[OF r[symmetric] x] show ?case using r x b t
    by (simp add: before_tested_append)
qed

text \<open>
  C10.  On a tree that the registry unfolds, each of the four searches returns normally,
  and what it tests and what it returns is fixed by the predicate that \<open>makeTest\<close> makes
  of the test, applied to dispatches: to a node together with the effective type it was
  dispatched under.  \<open>findNodeAt\<close>, \<open>findNodeAround\<close> and \<open>findNodeAfter\<close> test the
  dispatches of their scan that have the right position, one after the other, and return
  the first that the predicate accepts, or nothing when it accepts none; they make no
  other test.  \<open>findNodeBefore\<close> tests every dispatch of its scan that ends at or
  before \<open>pos\<close> and after the best match so far, and takes it as the best match when
  the predicate accepts it.  The predicate of an absent or \<open>null\<close> test accepts every
  dispatch, and that of a string accepts exactly the dispatches whose effective type is
  the string.  The effective type of the root is its own type, and the dispatches beneath
  a dispatch are the calls of its entry, each under its override when it has one and
  under the node's own type otherwise; so one node is tested once for every dispatch of
  it, under different names.
\<close>

theorem typeTest_acceptance:
  assumes "unfold n (default_base b) node None = Some d"
  shows "(\<exists>tr. findNodeAt n node start end test b st
            = Some (Inr (map_option (\<lambda>x. (fst x, st))
                 (List.find (passes (makeTest test))
                    (filter (exact_bounds start end) (at_scan start end d)))), tr)
          \<and> tests tr = until_first (passes (makeTest test))
                          (filter (exact_bounds start end) (at_scan start end d)))
     \<and> (\<exists>tr. findNodeAround n node pos test b st
            = Some (Inr (map_option (\<lambda>x. (fst x, st))
                 (List.find (passes (makeTest test)) (around_scan pos d))), tr)
          \<and> tests tr = until_first (passes (makeTest test)) (around_scan pos d))
     \<and> (\<exists>tr. findNodeAfter n node pos test b st
            = Some (Inr (map_option (\<lambda>x. (fst x, st))
                 (List.find (passes (makeTest test))
                    (filter (starts_at_or_after pos) (after_scan pos d)))), tr)
          \<and> tests tr = until_first (passes (makeTest test))
                          (filter (starts_at_or_after pos) (after_scan pos d)))
     \<and> (\<exists>tr. findNodeBefore n node pos test b st
            = Some (Inr (foldl (improve pos (makeTest test) st) None (before_scan pos d)), tr)
          \<and> tests tr = before_tested pos (makeTest test) st None (before_scan pos d))
     \<and> (\<forall>x. passes (makeTest TestAbsent) x \<and> passes (makeTest TestNull) x
           \<and> (passes (makeTest (TestString s)) x \<longleftrightarrow> snd x = s)
           \<and> (passes (makeTest (TestFunction f)) x \<longleftrightarrow> f (snd x) (fst x)))
     \<and> dlabel d = step_label (Call node None)
     \<and> (\<forall>d' \<in> set (subtrees d). \<exists>entry. default_base b (snd (dlabel d')) = Some entry
           \<and> map dlabel (dkids d') = map step_label (entry (dnode d')))"
proof -
  let ?t = "makeTest test"
  let ?reg = "default_base b"
  have 1: "\<exists>tr. findNodeAt n node start end test b st
            = Some (Inr (map_option (\<lambda>x. (fst x, st))
                 (List.find (passes ?t)
                    (filter (exact_bounds start end) (at_scan start end d)))), tr)
          \<and> tests tr = until_first (passes ?t)
                          (filter (exact_bounds start end) (at_scan start end d))"
  proof -
    obtain tr x where a: "at_dt start end ?t st d [] = (tr, x)"
      by (cases "at_dt start end ?t st d []")
    have c: "findNodeAt_c n start end ?t ?reg st [] node None = Some (tr, x)"
      using findNodeAt_c_unfold[OF assms, of start "end" ?t st "[]"] a by simp
    from at_dt_char(1)[OF a] c show ?thesis
      by (cases "List.find (passes ?t) (filter (exact_bounds start end) (at_scan start end d))")
         (simp_all add: findNodeAt_def catch_Found_def)
  qed
  have 2: "\<exists>tr. findNodeAround n node pos test b st
            = Some (Inr (map_option (\<lambda>x. (fst x, st))
                 (List.find (passes ?t) (around_scan pos d))), tr)
          \<and> tests tr = until_first (passes ?t) (around_scan pos d)"
  proof -
    obtain tr x where a: "around_dt pos ?t st d [] = (tr, x)"
      by (cases "around_dt pos ?t st d []")
    have c: "findNodeAround_c n pos ?t ?reg st [] node None = Some (tr, x)"
      using findNodeAround_c_unfold[OF assms, of pos ?t st "[]"] a by simp
    from around_dt_tests(1)[OF a] c show ?thesis
      by (cases "List.find (passes ?t) (around_scan pos d)")
         (simp_all add: findNodeAround_def catch_Found_def)
  qed
  have 3: "\<exists>tr. findNodeAfter n node pos test b st
            = Some (Inr (map_option (\<lambda>x. (fst x, st))
                 (List.find (passes ?t)
                    (filter (starts_at_or_after pos) (after_scan pos d)))), tr)
          \<and> tests tr = until_first (passes ?t)
                          (filter (starts_at_or_after pos) (after_scan pos d))"
  proof -
    obtain tr x where a: "after_dt pos ?t st d [] = (tr, x)"
      by (cases "after_dt pos ?t st d []")
    have c: "findNodeAfter_c n pos ?t ?reg st [] node None = Some (tr, x)"
      using findNodeAfter_c_unfold[OF assms, of pos ?t st "[]"] a by simp
    from after_dt_tests(1)[OF a] c show ?thesis
      by (cases "List.find (passes ?t) (filter (starts_at_or_after pos) (after_scan pos d))")
         (simp_all add: findNodeAfter_def catch_Found_def)
  qed
  have 4: "\<exists>tr. findNodeBefore n node pos test b st
            = Some (Inr (foldl (improve pos ?t st) None (before_scan pos d)), tr)
          \<and> tests tr = before_tested pos ?t st None (before_scan pos d)"
  proof -
    let ?r = "before_dt pos ?t st d (None, [])"
    have c: "findNodeBefore_c n pos ?t ?reg st (None, []) node None = Some ?r"
      by (rule findNodeBefore_c_unfold[OF assms])
    obtain best tr x where r: "?r = ((best, tr), x)" by (cases ?r) auto
    have x: "x = None" using before_dt_no_throw(1)[of pos ?t st d "(None, [])"] r by simp
    have best: "best = foldl (improve pos ?t st) None (before_scan pos d)"
      using before_dt_best(1)[of pos ?t st d "(None, [])"] r by simp
    have tr: "tests tr = before_tested pos ?t st None (before_scan pos d)"
      using before_dt_tested(1)[of pos ?t st d "(None, [])"] r by simp
    have "findNodeBefore n node pos test b st = Some (Inr best, tr)"
      using c r x by (simp add: findNodeBefore_def)
    then show ?thesis using best tr by simp
  qed
  have 5: "\<forall>x. passes (makeTest TestAbsent) x \<and> passes (makeTest TestNull) x
           \<and> (passes (makeTest (TestString s)) x \<longleftrightarrow> snd x = s)
           \<and> (passes (makeTest (TestFunction f)) x \<longleftrightarrow> f (snd x) (fst x))"
    by (simp add: passes_def)
  have 6: "dlabel d = step_label (Call node None)" by (rule unfold_label[OF assms])
  have 7: "\<forall>d' \<in> set (subtrees d). \<exists>entry. default_base b (snd (dlabel d')) = Some entry
           \<and> map dlabel (dkids d') = map step_label (entry (dnode d'))"
    using unfold_entries[OF assms] by blast
  from 1 2 3 4 5 6 7 show ?thesis by blast
qed

theorem typeTest_acceptance_witness:
  "(\<exists>tr. findNodeAt 12 ex_program (Some 4) (Some 5) (TestString ''Expression'') None ()
            = Some (Inr (Some (ex_x, ())), tr)
        \<and> tests tr = [(ex_x, ''Identifier''), (ex_x, ''Expression'')])
   \<and> (\<exists>tr. findNodeAround 12 ex_program 4 (TestString ''Expression'') None ()
            = Some (Inr (Some (ex_x, ())), tr)
        \<and> tests tr = [(ex_x, ''Identifier''), (ex_x, ''Expression'')])
   \<and> (\<exists>tr. findNodeAfter 12 ex_program 2 (TestString ''Identifier'') None ()
            = Some (Inr (Some (ex_g, ())), tr)
        \<and> tests tr = [(ex_inner, ''Expression''), (ex_inner, ''CallExpression''),
                       (ex_g, ''Expression''), (ex_g, ''Identifier'')])
   \<and> (\<exists>tr. findNodeBefore 12 ex_program 3 (TestString ''Identifier'') None ()
            = Some (Inr (Some (ex_g, ())), tr)
        \<and> tests tr = [(ex_f, ''Expression''), (ex_f, ''Identifier''),
                       (ex_g, ''Expression''), (ex_g, ''Identifier'')])"
proof -
  have 1: "map_option (\<lambda>x. (fst x, ()))
             (List.find (passes (makeTest (TestString ''Expression'')))
                (filter (exact_bounds (Some 4) (Some 5)) (at_scan (Some 4) (Some 5) ex_program_dtree)))
           = Some (ex_x, ())"
    by code_simp
  have 2: "until_first (passes (makeTest (TestString ''Expression'')))
             (filter (exact_bounds (Some 4) (Some 5)) (at_scan (Some 4) (Some 5) ex_program_dtree))
           = [(ex_x, ''Identifier''), (ex_x, ''Expression'')]"
    by code_simp
  have 3: "map_option (\<lambda>x. (fst x, ()))
             (List.find (passes (makeTest (TestString ''Expression''))) (around_scan 4 ex_program_dtree))
           = Some (ex_x, ())"
    by code_simp
  have 4: "until_first (passes (makeTest (TestString ''Expression''))) (around_scan 4 ex_program_dtree)
           = [(ex_x, ''Identifier''), (ex_x, ''Expression'')]"
    by code_simp
  have 5: "map_option (\<lambda>x. (fst x, ()))
             (List.find (passes (makeTest (TestString ''Identifier'')))
                (filter (starts_at_or_after 2) (after_scan 2 ex_program_dtree)))
           = Some (ex_g, ())"
    by code_simp
  have 6: "until_first (passes (makeTest (TestString ''Identifier'')))
             (filter (starts_at_or_after 2) (after_scan 2 ex_program_dtree))
           = [(ex_inner, ''Expression''), (ex_inner, ''CallExpression''),
              (ex_g, ''Expression''), (ex_g, ''Identifier'')]"
    by code_simp
  have 7: "foldl (improve 3 (makeTest (TestString ''Identifier'')) ()) None
             (before_scan 3 ex_program_dtree) = Some (ex_g, ())"
    by code_simp
  have 8: "before_tested 3 (makeTest (TestString ''Identifier'')) () None
             (before_scan 3 ex_program_dtree)
           = [(ex_f, ''Expression''), (ex_f, ''Identifier''),
              (ex_g, ''Expression''), (ex_g, ''Identifier'')]"
    by code_simp
  note t = typeTest_acceptance[OF ex_program_unfold, where st = "()"]
  from t[where start = "Some 4" and ?end = "Some 5" and test = "TestString ''Expression''"]
  have a: "\<exists>tr. findNodeAt 12 ex_program (Some 4) (Some 5) (TestString ''Expression'') None ()
            = Some (Inr (Some (ex_x, ())), tr)
        \<and> tests tr = [(ex_x, ''Identifier''), (ex_x, ''Expression'')]"
    unfolding 1 2 by blast
  from t[where pos = 4 and test = "TestString ''Expression''"]
  have b: "\<exists>tr. findNodeAround 12 ex_program 4 (TestString ''Expression'') None ()
            = Some (Inr (Some (ex_x, ())), tr)
        \<and> tests tr = [(ex_x, ''Identifier''), (ex_x, ''Expression'')]"
    unfolding 3 4 by blast
  from t[where pos = 2 and test = "TestString ''Identifier''"]
  have c: "\<exists>tr. findNodeAfter 12 ex_program 2 (TestString ''Identifier'') None ()
            = Some (Inr (Some (ex_g, ())), tr)
        \<and> tests tr = [(ex_inner, ''Expression''), (ex_inner, ''CallExpression''),
                       (ex_g, ''Expression''), (ex_g, ''Identifier'')]"
    unfolding 5 6 by blast
  from t[where pos = 3 and test = "TestString ''Identifier''"]
  have d: "\<exists>tr. findNodeBefore 12 ex_program 3 (TestString ''Identifier'') None ()
            = Some (Inr (Some (ex_g, ())), tr)
        \<and> tests tr = [(ex_f, ''Expression''), (ex_f, ''Identifier''),
                       (ex_g, ''Expression''), (ex_g, ''Identifier'')]"
    unfolding 7 8 by blast
  from a b c d show ?thesis by blast
qed

subsection \<open>make\<close>







lemma base_as_object:
  "lookup [\<lparr>props = map (\<lambda>(k, e). (k, VFunction e)) base_entries, proto = Root\<rparr>] 0 k
     = map_option VFunction (base k)"
  by (simp add: lookup.simps base_def map_of_map split: option.splits)




end
